theory Spec2Isabelle
  imports Complex_Main "HOL-Library.Multiset"
begin

section \<open>Data model of package queries (entcausal/queries/causality.go)\<close>

text \<open>
  Conventions of the embedding.
  \<^item> Go \<^verbatim>\<open>string\<close> is \<^typ>\<open>string\<close>; Go \<^verbatim>\<open>int\<close> is \<^typ>\<open>int\<close>. The only
    arithmetic on it is \<^verbatim>\<open>current.depth + 1\<close>, \<^verbatim>\<open>max\<close> and \<^verbatim>\<open>counts[t]++\<close>,
    each bounded by the number of nodes held in memory, so no wrap-around is reachable.
  \<^item> \<^verbatim>\<open>time.Time\<close> is an instant \<^typ>\<open>nat\<close>. \<^verbatim>\<open>time.Now()\<close> is read from a clock
    \<open>now :: nat \<Rightarrow> time\<close> that the caller passes in: \<open>now k\<close> is the \<open>k\<close>-th reading
    made during one call.
  \<^item> \<^verbatim>\<open>float64\<close> fields are only ever copied or left at their zero value; they are
    \<^typ>\<open>real\<close>.
  \<^item> \<^verbatim>\<open>map[string]interface{}\<close> (node metadata) is a map from strings to opaque
    strings; the code never writes it.
  \<^item> A Go slice is a list. The four slices of \<^verbatim>\<open>AgentDecisionPath\<close> and the slice
    returned by \<^verbatim>\<open>QueryByPatternHash\<close> are \<open>list option\<close>, with \<open>None\<close> for the
    \<^verbatim>\<open>nil\<close> slice and \<open>Some []\<close> for \<^verbatim>\<open>make([]T, 0)\<close>, because there the difference
    is what the code decides.
  \<^item> A result \<^verbatim>\<open>(v, err)\<close> is the pair \<open>(v, e)\<close> with \<open>e :: error option\<close>;
    \<open>None\<close> is the \<^verbatim>\<open>nil\<close> error.
  \<^item> A method with receiver \<^verbatim>\<open>s *CausalQueryService\<close> takes the service and returns
    it next to its result: the service after the call.
  \<^item> \<^verbatim>\<open>ctx context.Context\<close> is passed along and never read; it is left out.
\<close>

type_synonym time = nat

datatype error = Error string

record CausalNode =
  ID :: string
  Type :: string
  Timestamp :: time
  Depth :: int
  Metadata :: "string \<rightharpoonup> string"

record CausalEdge =
  SourceID :: string
  SourceType :: string
  TargetID :: string
  TargetType :: string
  EdgeType :: string
  Confidence :: real

record CausalPath =
  OutputID :: string
  Nodes :: "CausalNode list"
  Edges :: "CausalEdge list"
  Depth :: int
  TotalLatencyMs :: real
  TracedAt :: time

record EmergentPatternResult =
  PatternHash :: string
  OccurrenceCount :: int
  NeuronIndices :: "int list"
  PopulationID :: string
  FirstSeen :: time
  LastSeen :: time
  Significance :: real

record AgentDecisionPath =
  AgentID :: string
  ActionID :: string
  SpikeEvents :: "CausalNode list option"
  Decisions :: "CausalNode list option"
  Workflows :: "CausalNode list option"
  Outputs :: "CausalNode list option"
  TotalDepth :: int

text \<open>
  \<^verbatim>\<open>CausalQueryService\<close> holds the client of the entity store. The source declares it
  \<^verbatim>\<open>interface{}\<close> (a placeholder for the generated client), so the model is polymorphic
  in it.
\<close>

record 'c CausalQueryService =
  client :: 'c

definition NewCausalQueryService :: "'c \<Rightarrow> 'c CausalQueryService" where
  "NewCausalQueryService c = \<lparr>client = c\<rparr>"

text \<open>The helper \<^verbatim>\<open>max\<close> of the source.\<close>

definition max_int :: "int \<Rightarrow> int \<Rightarrow> int" where
  "max_int a b = (if a > b then a else b)"


section \<open>The parent lookup\<close>

text \<open>
  \<^verbatim>\<open>getParentNodes\<close> is the one place where the traversal reads the store. The
  source ships a placeholder for it that returns \<^verbatim>\<open>nil, nil\<close> whatever it is asked
  (ranging over a \<^verbatim>\<open>nil\<close> slice runs zero times, so it is the pair of empty lists).
  The database query the source's comments announce is not part of the repository, so
  the traversal loop below takes the lookup as a parameter
  \<open>fetch nodeID nodeType = (parents, edges)\<close>; the shipped service passes
  \<open>getParentNodes s\<close>.
\<close>

type_synonym parent_fetch = "string \<Rightarrow> string \<Rightarrow> CausalNode list \<times> CausalEdge list"

definition getParentNodes :: "'c CausalQueryService \<Rightarrow> parent_fetch" where
  "getParentNodes s nodeID nodeType = ([], [])"


section \<open>TraceCausality\<close>

text \<open>The element type of the traversal queue (an anonymous struct in the source).\<close>

record QueueItem =
  id_q :: string
  nodeType :: string
  depth :: int

text \<open>
  The \<^verbatim>\<open>for len(queue) > 0 && path.Depth <= maxDepth\<close> loop. The first equation is
  the exit on an empty queue, the outer \<open>if\<close> the exit on the depth, the inner
  \<open>if\<close> the \<^verbatim>\<open>continue\<close> on a visited id. \<open>visited\<close> is the set of keys of the
  source's \<^verbatim>\<open>map[string]bool\<close> (only \<^verbatim>\<open>true\<close> is ever stored).
\<close>

function TraceLoop ::
  "parent_fetch \<Rightarrow> (nat \<Rightarrow> time) \<Rightarrow> int \<Rightarrow> QueueItem list \<Rightarrow> string set \<Rightarrow> CausalPath
    \<Rightarrow> CausalPath"
where
  "TraceLoop fetch now maxDepth [] visited path = path"
| "TraceLoop fetch now maxDepth (current # queue) visited path =
     (if CausalPath.Depth path \<le> maxDepth then
        (if id_q current \<in> visited then TraceLoop fetch now maxDepth queue visited path
         else
           (let visited = insert (id_q current) visited;
                node = \<lparr>ID = id_q current, Type = nodeType current,
                         Timestamp = now (Suc (length (Nodes path))),
                         Depth = depth current, Metadata = Map.empty\<rparr>;
                path = path\<lparr>Nodes := Nodes path @ [node]\<rparr>;
                path = path\<lparr>CausalPath.Depth :=
                              max_int (CausalPath.Depth path) (depth current)\<rparr>;
                (parents, edges) = fetch (id_q current) (nodeType current);
                path = path\<lparr>Edges := Edges path @ edges\<rparr>;
                queue = queue @
                  map (\<lambda>parent. \<lparr>id_q = ID parent, nodeType = Type parent,
                                   depth = depth current + 1\<rparr>)
                    (filter (\<lambda>parent. ID parent \<notin> visited) parents)
            in TraceLoop fetch now maxDepth queue visited path))
      else path)"
  by pat_completeness auto

text \<open>
  Termination. A queue entry of depth \<open>d\<close> weighs \<open>maxDepth + 2 - d\<close>. An iteration
  either drops the head, or replaces it by entries one level deeper, which weigh less as
  long as the head is within the ceiling; a head beyond the ceiling pushes
  \<^verbatim>\<open>path.Depth\<close> over \<open>maxDepth\<close>, after which the loop makes no further iteration.
  So the pair (is the depth still within the ceiling, multiset of the weights) decreases.
\<close>

definition weight :: "int \<Rightarrow> QueueItem \<Rightarrow> nat" where
  "weight maxDepth q = nat (maxDepth + 2 - depth q)"

definition loop_measure ::
  "parent_fetch \<times> (nat \<Rightarrow> time) \<times> int \<times> QueueItem list \<times> string set \<times> CausalPath
    \<Rightarrow> nat \<times> nat multiset" where
  "loop_measure = (\<lambda>(fetch, now, maxDepth, queue, visited, path).
     (if CausalPath.Depth path \<le> maxDepth then 1 else 0, mset (map (weight maxDepth) queue)))"

lemma mset_step:
  assumes "\<forall>k \<in> set ks. k < (w::nat)"
  shows "(mset (ws @ ks), mset (w # ws)) \<in> mult less_than"
proof -
  have "(mset ws + mset ks, mset ws + {#w#}) \<in> mult less_than"
    by (rule one_step_implies_mult) (use assms in auto)
  then show ?thesis by (simp add: ac_simps)
qed

termination TraceLoop
proof (relation "inv_image (less_than <*lex*> mult less_than) loop_measure")
  show "wf (inv_image (less_than <*lex*> mult less_than) loop_measure)"
    by (intro wf_inv_image wf_lex_prod wf_mult wf_less_than)
next
  fix fetch :: parent_fetch and now :: "nat \<Rightarrow> time" and maxDepth :: int
    and queue :: "QueueItem list" and visited :: "string set" and path :: CausalPath
    and current :: QueueItem
  assume "CausalPath.Depth path \<le> maxDepth"
  moreover have "(mset (map (weight maxDepth) queue @ []),
      mset (weight maxDepth current # map (weight maxDepth) queue)) \<in> mult less_than"
    by (rule mset_step) simp
  ultimately show "((fetch, now, maxDepth, queue, visited, path),
         (fetch, now, maxDepth, current # queue, visited, path))
        \<in> inv_image (less_than <*lex*> mult less_than) loop_measure"
    by (simp add: loop_measure_def)
next
  fix fetch :: parent_fetch and now :: "nat \<Rightarrow> time" and maxDepth :: int
    and queue queue' :: "QueueItem list" and visited visited' :: "string set"
    and path path1 path2 path3 :: CausalPath and current :: QueueItem
    and node :: CausalNode and parents :: "CausalNode list" and edges :: "CausalEdge list"
  assume a: "CausalPath.Depth path \<le> maxDepth"
    and p1: "path1 = path\<lparr>Nodes := Nodes path @ [node]\<rparr>"
    and p2: "path2 = path1\<lparr>CausalPath.Depth :=
                              max_int (CausalPath.Depth path1) (depth current)\<rparr>"
    and p3: "path3 = path2\<lparr>Edges := Edges path2 @ edges\<rparr>"
    and q: "queue' = queue @
              map (\<lambda>parent. \<lparr>id_q = ID parent, nodeType = Type parent,
                               depth = depth current + 1\<rparr>)
                (filter (\<lambda>parent. ID parent \<notin> visited') parents)"
  define new where "new =
     map (\<lambda>parent. \<lparr>id_q = ID parent, nodeType = Type parent, depth = depth current + 1\<rparr>)
       (filter (\<lambda>parent. ID parent \<notin> visited') parents)"
  have q': "queue' = queue @ new" by (simp add: q new_def)
  have d3: "CausalPath.Depth path3 = max (CausalPath.Depth path) (depth current)"
    by (simp add: p1 p2 p3 max_int_def max_def)
  show "((fetch, now, maxDepth, queue', visited', path3),
         (fetch, now, maxDepth, current # queue, visited, path))
        \<in> inv_image (less_than <*lex*> mult less_than) loop_measure"
  proof (cases "depth current \<le> maxDepth")
    case False
    then show ?thesis using a by (simp add: loop_measure_def d3)
  next
    case True
    have "\<forall>k \<in> set (map (weight maxDepth) new). k < weight maxDepth current"
      using True by (auto simp: weight_def new_def)
    then have "(mset (map (weight maxDepth) queue @ map (weight maxDepth) new),
           mset (weight maxDepth current # map (weight maxDepth) queue)) \<in> mult less_than"
      by (rule mset_step)
    then show ?thesis using a True by (simp add: loop_measure_def d3 q')
  qed
qed

text \<open>
  The body of \<^verbatim>\<open>TraceCausality\<close> around the loop, with the parent lookup as a
  parameter, and the method as the repository ships it.
\<close>

definition TraceCausality_with ::
  "parent_fetch \<Rightarrow> (nat \<Rightarrow> time) \<Rightarrow> string \<Rightarrow> int \<Rightarrow> CausalPath \<times> error option" where
  "TraceCausality_with fetch now outputID maxDepth =
     (let maxDepth = (if maxDepth \<le> 0 then 100 else maxDepth);
          path = \<lparr>OutputID = outputID, Nodes = [], Edges = [], Depth = 0,
                  TotalLatencyMs = 0, TracedAt = now 0\<rparr>;
          visited = {};
          queue = [\<lparr>id_q = outputID, nodeType = ''external_output'', depth = 0\<rparr>]
      in (TraceLoop fetch now maxDepth queue visited path, None))"

definition TraceCausality ::
  "'c CausalQueryService \<Rightarrow> (nat \<Rightarrow> time) \<Rightarrow> string \<Rightarrow> int
    \<Rightarrow> (CausalPath \<times> error option) \<times> 'c CausalQueryService" where
  "TraceCausality s now outputID maxDepth =
     (TraceCausality_with (getParentNodes s) now outputID maxDepth, s)"


section \<open>The other operations of the service\<close>

text \<open>
  \<^verbatim>\<open>FindEmergentPatterns\<close> and \<^verbatim>\<open>QueryByPatternHash\<close> assign a default to their
  parameter (\<^verbatim>\<open>if minOccurrences <= 0 { minOccurrences = 5 }\<close>,
  \<^verbatim>\<open>if limit <= 0 { limit = 100 }\<close>) and then return without reading it again. So
  that the assignment is part of what the model computes, the body of each is a function
  that yields the value the parameter holds at the \<^verbatim>\<open>return\<close> statement next to what is
  returned; the operation is its second component.
\<close>

definition FindEmergentPatterns_body ::
  "'c CausalQueryService \<Rightarrow> time \<Rightarrow> time \<Rightarrow> int
    \<Rightarrow> int \<times> ((EmergentPatternResult list \<times> error option) \<times> 'c CausalQueryService)" where
  "FindEmergentPatterns_body s startTime endTime minOccurrences =
     (let minOccurrences = (if minOccurrences \<le> 0 then 5 else minOccurrences);
          results = []
      in (minOccurrences, ((results, None), s)))"

definition FindEmergentPatterns ::
  "'c CausalQueryService \<Rightarrow> time \<Rightarrow> time \<Rightarrow> int
    \<Rightarrow> (EmergentPatternResult list \<times> error option) \<times> 'c CausalQueryService" where
  "FindEmergentPatterns s startTime endTime minOccurrences =
     snd (FindEmergentPatterns_body s startTime endTime minOccurrences)"

definition GetAgentDecisionPath ::
  "'c CausalQueryService \<Rightarrow> string \<Rightarrow> string
    \<Rightarrow> (AgentDecisionPath \<times> error option) \<times> 'c CausalQueryService" where
  "GetAgentDecisionPath s agentID actionID =
     (let path = \<lparr>AgentID = agentID, ActionID = actionID,
                  SpikeEvents = Some [], Decisions = Some [],
                  Workflows = Some [], Outputs = Some [], TotalDepth = 0\<rparr>
      in ((path, None), s))"

definition QueryByPatternHash_body ::
  "'c CausalQueryService \<Rightarrow> string \<Rightarrow> int
    \<Rightarrow> int \<times> ((CausalNode list option \<times> error option) \<times> 'c CausalQueryService)" where
  "QueryByPatternHash_body s patternHash limit =
     (let limit = (if limit \<le> 0 then 100 else limit)
      in (limit, ((None, None), s)))"

definition QueryByPatternHash ::
  "'c CausalQueryService \<Rightarrow> string \<Rightarrow> int
    \<Rightarrow> (CausalNode list option \<times> error option) \<times> 'c CausalQueryService" where
  "QueryByPatternHash s patternHash limit = snd (QueryByPatternHash_body s patternHash limit)"

definition buildInferencePath ::
  "'c CausalQueryService \<Rightarrow> (nat \<Rightarrow> time) \<Rightarrow> string
    \<Rightarrow> (CausalPath \<times> error option) \<times> 'c CausalQueryService" where
  "buildInferencePath s now inferenceID =
     (let path = \<lparr>OutputID = inferenceID, Nodes = [], Edges = [], Depth = 0,
                  TotalLatencyMs = 0, TracedAt = now 0\<rparr>
      in ((path, None), s))"

definition QueryByInferenceID ::
  "'c CausalQueryService \<Rightarrow> (nat \<Rightarrow> time) \<Rightarrow> string
    \<Rightarrow> (CausalPath \<times> error option) \<times> 'c CausalQueryService" where
  "QueryByInferenceID s now inferenceID = buildInferencePath s now inferenceID"


section \<open>Derived views on a path\<close>

text \<open>
  Each view is the source's \<^verbatim>\<open>for _, node := range p.Nodes\<close> loop, as a fold over
  the node list. \<^verbatim>\<open>counts[node.Type]++\<close> reads the zero value for a missing key.
\<close>

definition GetSpikeEvents :: "CausalPath \<Rightarrow> CausalNode list" where
  "GetSpikeEvents p =
     fold (\<lambda>node events. if Type node = ''spike_event'' then events @ [node] else events)
       (Nodes p) []"

definition GetDecisions :: "CausalPath \<Rightarrow> CausalNode list" where
  "GetDecisions p =
     fold (\<lambda>node decisions.
             if Type node = ''routing_decision'' then decisions @ [node] else decisions)
       (Nodes p) []"

definition CountByType :: "CausalPath \<Rightarrow> (string \<rightharpoonup> int)" where
  "CountByType p =
     fold (\<lambda>node counts.
             counts(Type node \<mapsto> (case counts (Type node) of None \<Rightarrow> 0 | Some c \<Rightarrow> c) + 1))
       (Nodes p) Map.empty"


section \<open>Notions used to state and prove the properties\<close>

subsection \<open>One iteration of the loop\<close>

text \<open>
  Names for the parts of the loop body: the node an iteration records, the path after the
  iteration, the entries it appends to the queue, and the queue it leaves.
  \<open>TraceLoop_Cons\<close> below shows that the loop is built from exactly these.
\<close>

definition node_of :: "(nat \<Rightarrow> time) \<Rightarrow> QueueItem \<Rightarrow> CausalPath \<Rightarrow> CausalNode" where
  "node_of now current path =
     \<lparr>ID = id_q current, Type = nodeType current,
       Timestamp = now (Suc (length (Nodes path))),
       Depth = depth current, Metadata = Map.empty\<rparr>"

definition visit :: "parent_fetch \<Rightarrow> (nat \<Rightarrow> time) \<Rightarrow> QueueItem \<Rightarrow> CausalPath \<Rightarrow> CausalPath" where
  "visit fetch now current path =
     path\<lparr>Nodes := Nodes path @ [node_of now current path],
          CausalPath.Depth := max (CausalPath.Depth path) (depth current),
          Edges := Edges path @ snd (fetch (id_q current) (nodeType current))\<rparr>"

definition enqueue_parents :: "string set \<Rightarrow> int \<Rightarrow> CausalNode list \<Rightarrow> QueueItem list" where
  "enqueue_parents visited d parents =
     map (\<lambda>parent. \<lparr>id_q = ID parent, nodeType = Type parent, depth = d + 1\<rparr>)
       (filter (\<lambda>parent. ID parent \<notin> visited) parents)"

definition successor_queue :: "parent_fetch \<Rightarrow> QueueItem \<Rightarrow> QueueItem list \<Rightarrow> string set \<Rightarrow> QueueItem list" where
  "successor_queue fetch current queue visited =
     queue @ enqueue_parents (insert (id_q current) visited) (depth current)
               (fst (fetch (id_q current) (nodeType current)))"

text \<open>
  The ceiling the loop runs with, the first queue entry and the empty path
  \<^verbatim>\<open>TraceCausality\<close> starts from; the path it returns; and the path that holds the root
  alone.
\<close>

definition norm_depth :: "int \<Rightarrow> int" where
  "norm_depth maxDepth = (if maxDepth \<le> 0 then 100 else maxDepth)"

definition root_item :: "string \<Rightarrow> QueueItem" where
  "root_item outputID = \<lparr>id_q = outputID, nodeType = ''external_output'', depth = 0\<rparr>"

definition empty_path :: "(nat \<Rightarrow> time) \<Rightarrow> string \<Rightarrow> CausalPath" where
  "empty_path now outputID = \<lparr>OutputID = outputID, Nodes = [], Edges = [], Depth = 0,
                  TotalLatencyMs = 0, TracedAt = now 0\<rparr>"

definition traced_path :: "parent_fetch \<Rightarrow> (nat \<Rightarrow> time) \<Rightarrow> string \<Rightarrow> int \<Rightarrow> CausalPath" where
  "traced_path fetch now outputID maxDepth = fst (TraceCausality_with fetch now outputID maxDepth)"

definition root_only_path :: "(nat \<Rightarrow> time) \<Rightarrow> string \<Rightarrow> CausalPath" where
  "root_only_path now outputID =
     \<lparr>OutputID = outputID,
       Nodes = [\<lparr>ID = outputID, Type = ''external_output'', Timestamp = now 1, Depth = 0,
                 Metadata = Map.empty\<rparr>],
       Edges = [], Depth = 0, TotalLatencyMs = 0, TracedAt = now 0\<rparr>"

subsection \<open>Distance from the root\<close>

text \<open>
  \<open>level fetch nodes rt k\<close> is the set of ids that are \<open>k\<close> parent hops away from
  \<open>rt\<close>, following the parent lists that were fetched for the recorded \<open>nodes\<close>
  (the parent edges the traversal discovered). The breadth-first distance of an id is the
  least \<open>k\<close> whose level holds it.
\<close>

fun level :: "parent_fetch \<Rightarrow> CausalNode list \<Rightarrow> string \<Rightarrow> nat \<Rightarrow> string set" where
  "level fetch nodes rt 0 = {rt}"
| "level fetch nodes rt (Suc k) =
     (\<Union>n \<in> set (filter (\<lambda>n. ID n \<in> level fetch nodes rt k) nodes).
        ID ` set (fst (fetch (ID n) (Type n))))"

subsection \<open>Loop invariants\<close>

text \<open>
  The invariants hold from the moment the root has been recorded.
  \<^item> \<open>inv_nodes\<close>: the visited set is the set of recorded ids, no id is recorded twice,
    the edge list is the concatenation of the edge lists fetched for the recorded nodes,
    the first node is the root, and \<^verbatim>\<open>path.Depth\<close> is the largest recorded depth.
  \<^item> \<open>inv_queue\<close>: the queue is sorted by depth, spans at most two levels, and no
    recorded node is deeper than a queue entry.
  \<^item> \<open>inv_origin\<close>: every queue entry is a fetched parent of a recorded node, one level
    below it.
  \<^item> \<open>inv_reach\<close>: a recorded node of depth \<open>d\<close> is \<open>d\<close> hops from the root.
  \<^item> \<open>inv_parents\<close>: a fetched parent of a recorded node \<open>n\<close> is recorded at depth at
    most \<open>depth n + 1\<close>, or still waits in the queue at such a depth.
  \<^item> \<open>inv_ceiling\<close>: only the node recorded last can lie beyond the ceiling \<open>k\<close>, and
    by one level at most.
\<close>

definition inv_nodes :: "parent_fetch \<Rightarrow> string \<Rightarrow> string set \<Rightarrow> CausalPath \<Rightarrow> bool" where
  "inv_nodes fetch rt v p \<longleftrightarrow>
     v = ID ` set (Nodes p) \<and> distinct (map ID (Nodes p))
   \<and> Edges p = concat (map (\<lambda>n. snd (fetch (ID n) (Type n))) (Nodes p))
   \<and> Nodes p \<noteq> [] \<and> ID (hd (Nodes p)) = rt \<and> Type (hd (Nodes p)) = ''external_output''
   \<and> CausalNode.Depth (hd (Nodes p)) = 0
   \<and> (\<forall>n \<in> set (Nodes p). 0 \<le> CausalNode.Depth n \<and> CausalNode.Depth n \<le> CausalPath.Depth p)
   \<and> (\<exists>n \<in> set (Nodes p). CausalNode.Depth n = CausalPath.Depth p)"

definition inv_queue :: "QueueItem list \<Rightarrow> CausalPath \<Rightarrow> bool" where
  "inv_queue q p \<longleftrightarrow>
     sorted (map depth q)
   \<and> (\<forall>x \<in> set q. \<forall>y \<in> set q. depth y \<le> depth x + 1)
   \<and> (\<forall>n \<in> set (Nodes p). \<forall>x \<in> set q. CausalNode.Depth n \<le> depth x)"

definition inv_origin :: "parent_fetch \<Rightarrow> QueueItem list \<Rightarrow> CausalPath \<Rightarrow> bool" where
  "inv_origin fetch q p \<longleftrightarrow>
     (\<forall>x \<in> set q. \<exists>n \<in> set (Nodes p).
        depth x = CausalNode.Depth n + 1 \<and> id_q x \<in> ID ` set (fst (fetch (ID n) (Type n))))"

definition inv_reach :: "parent_fetch \<Rightarrow> string \<Rightarrow> CausalPath \<Rightarrow> bool" where
  "inv_reach fetch rt p \<longleftrightarrow>
     (\<forall>n \<in> set (Nodes p). ID n \<in> level fetch (Nodes p) rt (nat (CausalNode.Depth n)))"

definition inv_parents :: "parent_fetch \<Rightarrow> QueueItem list \<Rightarrow> string set \<Rightarrow> CausalPath \<Rightarrow> bool" where
  "inv_parents fetch q v p \<longleftrightarrow>
     (\<forall>n \<in> set (Nodes p). \<forall>pa \<in> set (fst (fetch (ID n) (Type n))).
        (ID pa \<in> v \<longrightarrow> (\<exists>m \<in> set (Nodes p). ID m = ID pa \<and> CausalNode.Depth m \<le> CausalNode.Depth n + 1))
      \<and> (ID pa \<notin> v \<longrightarrow> (\<exists>x \<in> set q. id_q x = ID pa \<and> depth x \<le> CausalNode.Depth n + 1)))"

definition trace_inv :: "parent_fetch \<Rightarrow> string \<Rightarrow> QueueItem list \<Rightarrow> string set \<Rightarrow> CausalPath \<Rightarrow> bool" where
  "trace_inv fetch rt q v p \<longleftrightarrow>
     inv_nodes fetch rt v p \<and> inv_queue q p \<and> inv_origin fetch q p
   \<and> inv_reach fetch rt p \<and> inv_parents fetch q v p"

definition inv_ceiling :: "parent_fetch \<Rightarrow> string \<Rightarrow> int \<Rightarrow> QueueItem list \<Rightarrow> string set \<Rightarrow> CausalPath \<Rightarrow> bool" where
  "inv_ceiling fetch rt k q v p \<longleftrightarrow>
     trace_inv fetch rt q v p
   \<and> (\<forall>n \<in> set (butlast (Nodes p)). CausalNode.Depth n \<le> k)
   \<and> CausalPath.Depth p \<le> k + 1"

subsection \<open>Notions for the other operations\<close>

text \<open>One iteration of the counting loop of \<^verbatim>\<open>CountByType\<close>.\<close>

definition count_step :: "CausalNode \<Rightarrow> (string \<rightharpoonup> int) \<Rightarrow> (string \<rightharpoonup> int)" where
  "count_step node counts =
     counts(Type node \<mapsto> (case counts (Type node) of None \<Rightarrow> 0 | Some c \<Rightarrow> c) + 1)"

text \<open>
  The order the design asks of a pattern list: descending occurrence count, ties broken
  by the most recent last-seen time first.
\<close>

definition ordered_by_count_then_last_seen :: "EmergentPatternResult list \<Rightarrow> bool" where
  "ordered_by_count_then_last_seen rs =
     sorted_wrt (\<lambda>x y. OccurrenceCount x > OccurrenceCount y
                     \<or> (OccurrenceCount x = OccurrenceCount y \<and> LastSeen x \<ge> LastSeen y)) rs"

section \<open>Example stores and paths\<close>

text \<open>
  \<open>demo_fetch\<close> is a parent lookup over a small graph: the output \<open>out\<close> comes from
  workflow \<open>w1\<close>, that from action \<open>a1\<close>, that from the decisions \<open>d1\<close> and
  \<open>d2\<close>, which share the spike event \<open>s1\<close> (fan-in); \<open>d2\<close> also names \<open>d1\<close> as a
  parent, which is already visited when \<open>d2\<close> is processed. Every other id has no
  parents.
\<close>

definition mk_node :: "string \<Rightarrow> string \<Rightarrow> CausalNode" where
  "mk_node i t = \<lparr>ID = i, Type = t, Timestamp = 0, Depth = 0, Metadata = Map.empty\<rparr>"

definition mk_edge :: "string \<Rightarrow> string \<Rightarrow> string \<Rightarrow> string \<Rightarrow> CausalEdge" where
  "mk_edge child ct parent pt =
     \<lparr>SourceID = child, SourceType = ct, TargetID = parent, TargetType = pt,
       EdgeType = ''caused_by'', Confidence = 1\<rparr>"

definition rec_node :: "string \<Rightarrow> string \<Rightarrow> time \<Rightarrow> int \<Rightarrow> CausalNode" where
  "rec_node i t ts d = \<lparr>ID = i, Type = t, Timestamp = ts, Depth = d, Metadata = Map.empty\<rparr>"

definition demo_fetch :: parent_fetch where
  "demo_fetch nodeID nodeTyp =
     (if nodeID = ''out'' then
        ([mk_node ''w1'' ''workflow_execution''],
         [mk_edge ''out'' ''external_output'' ''w1'' ''workflow_execution''])
      else if nodeID = ''w1'' then
        ([mk_node ''a1'' ''agent_action''],
         [mk_edge ''w1'' ''workflow_execution'' ''a1'' ''agent_action''])
      else if nodeID = ''a1'' then
        ([mk_node ''d1'' ''routing_decision'', mk_node ''d2'' ''routing_decision''],
         [mk_edge ''a1'' ''agent_action'' ''d1'' ''routing_decision'',
          mk_edge ''a1'' ''agent_action'' ''d2'' ''routing_decision''])
      else if nodeID = ''d1'' then
        ([mk_node ''s1'' ''spike_event''],
         [mk_edge ''d1'' ''routing_decision'' ''s1'' ''spike_event''])
      else if nodeID = ''d2'' then
        ([mk_node ''s1'' ''spike_event'', mk_node ''d1'' ''routing_decision''],
         [mk_edge ''d2'' ''routing_decision'' ''s1'' ''spike_event'',
          mk_edge ''d2'' ''routing_decision'' ''d1'' ''routing_decision''])
      else ([], []))"

text \<open>
  A service whose client is the list of the entity ids it stores (none), and one whose
  client is a list of spike events (fingerprint, time): three with fingerprint \<open>A\<close>,
  seven with fingerprint \<open>B\<close>.
\<close>

definition empty_store :: "string list CausalQueryService" where
  "empty_store = \<lparr>client = []\<rparr>"

definition spike_store :: "(string \<times> time) list CausalQueryService" where
  "spike_store = \<lparr>client = [(''A'', 1), (''B'', 2), (''A'', 3), (''B'', 4), (''B'', 5),
                            (''A'', 6), (''B'', 7), (''B'', 8), (''B'', 9), (''B'', 10)]\<rparr>"

text \<open>A path with two spike events, one routing decision and one agent action.\<close>

definition four_node_path :: CausalPath where
  "four_node_path =
     \<lparr>OutputID = ''out'',
       Nodes = [rec_node ''s1'' ''spike_event'' 0 4, rec_node ''s2'' ''spike_event'' 0 4,
                rec_node ''d1'' ''routing_decision'' 0 3, rec_node ''a1'' ''agent_action'' 0 2],
       Edges = [], Depth = 4, TotalLatencyMs = 0, TracedAt = 0\<rparr>"

section \<open>The loop in terms of its iterations\<close>

lemma TraceLoop_Cons:
  "TraceLoop fetch now maxDepth (c # q) v p =
     (if CausalPath.Depth p \<le> maxDepth then
        (if id_q c \<in> v then TraceLoop fetch now maxDepth q v p
         else TraceLoop fetch now maxDepth (successor_queue fetch c q v)
                (insert (id_q c) v) (visit fetch now c p))
      else p)"
  by (simp add: Let_def visit_def node_of_def enqueue_parents_def successor_queue_def
        max_int_def max_def split: prod.split)

declare TraceLoop.simps(2) [simp del]

lemma Nodes_visit [simp]: "Nodes (visit fetch now c p) = Nodes p @ [node_of now c p]"
  by (simp add: visit_def)

lemma Depth_visit [simp]:
  "CausalPath.Depth (visit fetch now c p) = max (CausalPath.Depth p) (depth c)"
  by (simp add: visit_def)

lemma Edges_visit [simp]:
  "Edges (visit fetch now c p) = Edges p @ snd (fetch (id_q c) (nodeType c))"
  by (simp add: visit_def)

lemma OutputID_visit [simp]: "OutputID (visit fetch now c p) = OutputID p"
  by (simp add: visit_def)

lemma node_of_sel [simp]:
  "ID (node_of now c p) = id_q c" "Type (node_of now c p) = nodeType c"
  "CausalNode.Depth (node_of now c p) = depth c"
  by (simp_all add: node_of_def)

lemma in_enqueue_parents:
  "x \<in> set (enqueue_parents V d ps) \<longleftrightarrow>
     (\<exists>pa \<in> set ps. ID pa \<notin> V \<and> x = \<lparr>id_q = ID pa, nodeType = Type pa, depth = d + 1\<rparr>)"
  by (auto simp: enqueue_parents_def)

lemma depth_enqueue_parents: "x \<in> set (enqueue_parents V d ps) \<Longrightarrow> depth x = d + 1"
  by (auto simp: in_enqueue_parents)

lemma map_depth_enqueue_parents:
  "map depth (enqueue_parents V d ps) = replicate (length (enqueue_parents V d ps)) (d + 1)"
  by (simp add: enqueue_parents_def map_replicate_const[symmetric] comp_def)

lemma set_successor_queue:
  "set (successor_queue fetch c q v) =
     set q \<union> set (enqueue_parents (insert (id_q c) v) (depth c) (fst (fetch (id_q c) (nodeType c))))"
  by (simp add: successor_queue_def)

text \<open>
  The invariant rule of the loop: what holds at the start and is kept by both kinds of
  iteration (skipping a visited id, recording a new one) holds of the returned path,
  together with the exit condition.
\<close>

lemma TraceLoop_invariant:
  assumes init: "I queue visited path"
    and skip: "\<And>c q v p. I (c # q) v p \<Longrightarrow> CausalPath.Depth p \<le> maxDepth \<Longrightarrow> id_q c \<in> v
                 \<Longrightarrow> I q v p"
    and step: "\<And>c q v p. I (c # q) v p \<Longrightarrow> CausalPath.Depth p \<le> maxDepth \<Longrightarrow> id_q c \<notin> v
                 \<Longrightarrow> I (successor_queue fetch c q v) (insert (id_q c) v) (visit fetch now c p)"
  shows "\<exists>q v. I q v (TraceLoop fetch now maxDepth queue visited path)
            \<and> (q = [] \<or> maxDepth < CausalPath.Depth (TraceLoop fetch now maxDepth queue visited path))"
  using init skip step
proof (induction fetch now maxDepth queue visited path rule: TraceLoop.induct)
  case (1 fetch now maxDepth visited path)
  then show ?case by auto
next
  case (2 fetch now maxDepth c q v p)
  show ?case
  proof (cases "CausalPath.Depth p \<le> maxDepth")
    case False
    then show ?thesis using "2.prems"(1) by (auto simp: TraceLoop_Cons)
  next
    case d: True
    show ?thesis
    proof (cases "id_q c \<in> v")
      case True
      have "I q v p" using "2.prems" d True by blast
      from "2.IH"(1)[OF d True this "2.prems"(2,3)] show ?thesis
        using d True by (simp add: TraceLoop_Cons)
    next
      case False
      have i: "I (successor_queue fetch c q v) (insert (id_q c) v) (visit fetch now c p)"
        using "2.prems" d False by blast
      obtain ps es where f: "fetch (id_q c) (nodeType c) = (ps, es)" by fastforce
      have sq: "successor_queue fetch c q v = q @
                  map (\<lambda>parent. \<lparr>id_q = ID parent, nodeType = Type parent,
                                   depth = depth c + 1\<rparr>)
                    (filter (\<lambda>parent. ID parent \<notin> insert (id_q c) v) ps)"
        by (simp add: successor_queue_def enqueue_parents_def f)
      have vs: "visit fetch now c p =
         p\<lparr>Nodes := Nodes p @ [\<lparr>ID = id_q c, Type = nodeType c,
                         Timestamp = now (Suc (length (Nodes p))),
                         Depth = depth c, Metadata = Map.empty\<rparr>],
           CausalPath.Depth := max_int (CausalPath.Depth p) (depth c),
           Edges := Edges p @ es\<rparr>"
        by (simp add: visit_def node_of_def f max_int_def max_def)
      have "\<exists>q' v'. I q' v' (TraceLoop fetch now maxDepth (successor_queue fetch c q v)
                (insert (id_q c) v) (visit fetch now c p))
            \<and> (q' = [] \<or> maxDepth < CausalPath.Depth (TraceLoop fetch now maxDepth
                 (successor_queue fetch c q v) (insert (id_q c) v) (visit fetch now c p)))"
        unfolding sq vs
        apply (rule "2.IH"(2)[OF d False refl refl refl refl refl f[symmetric] _ refl])
        using i "2.prems"(2,3) unfolding sq vs by simp_all
      then show ?thesis using d False by (simp add: TraceLoop_Cons)
    qed
  qed
qed

lemma OutputID_TraceLoop: "OutputID (TraceLoop fetch now k q v p) = OutputID p"
proof -
  have "\<exists>(q'::QueueItem list) (v'::string set).
          OutputID (TraceLoop fetch now k q v p) = OutputID p
          \<and> (q' = [] \<or> k < CausalPath.Depth (TraceLoop fetch now k q v p))"
    by (rule TraceLoop_invariant[where I = "\<lambda>q' v' p'. OutputID p' = OutputID p"]) simp_all
  then show ?thesis by blast
qed

lemma TraceCausality_with_unfold:
  "TraceCausality_with fetch now outputID maxDepth =
     (TraceLoop fetch now (norm_depth maxDepth)
        (successor_queue fetch (root_item outputID) [] {}) {outputID}
        (visit fetch now (root_item outputID) (empty_path now outputID)), None)"
proof -
  have "CausalPath.Depth (empty_path now outputID) \<le> norm_depth maxDepth"
    by (simp add: empty_path_def norm_depth_def)
  then have "TraceLoop fetch now (norm_depth maxDepth) [root_item outputID] {}
               (empty_path now outputID) =
        TraceLoop fetch now (norm_depth maxDepth)
        (successor_queue fetch (root_item outputID) [] {}) (insert (id_q (root_item outputID)) {})
        (visit fetch now (root_item outputID) (empty_path now outputID))"
    by (simp add: TraceLoop_Cons)
  then show ?thesis
    by (simp add: TraceCausality_with_def norm_depth_def root_item_def empty_path_def)
qed

lemma error_is_nil: "snd (TraceCausality_with fetch now outputID maxDepth) = None"
  by (simp add: TraceCausality_with_def)

text \<open>
  The shipped method is the traversal with the shipped lookup, so what is proved of
  \<open>traced_path fetch\<close> for every \<open>fetch\<close> holds of the path it returns.
\<close>

lemma TraceCausality_traced_path:
  "TraceCausality s now outputID maxDepth =
     ((traced_path (getParentNodes s) now outputID maxDepth, None), s)"
  by (simp add: TraceCausality_def traced_path_def prod_eq_iff error_is_nil)

lemma trace_root_only:
  assumes "fetch outputID ''external_output'' = ([], [])"
  shows "TraceCausality_with fetch now outputID maxDepth = (root_only_path now outputID, None)"
  by (simp add: TraceCausality_with_unfold successor_queue_def enqueue_parents_def root_item_def
        visit_def node_of_def empty_path_def root_only_path_def assms)

section \<open>The invariants are kept\<close>

lemma level_mono: "level fetch nodes rt k \<subseteq> level fetch (nodes @ ns) rt k"
proof (induction k)
  case 0
  show ?case by simp
next
  case (Suc k)
  then show ?case by (simp add: UN_subset_iff) blast
qed

subsection \<open>Skipping a visited id\<close>

lemma inv_queue_skip: "inv_queue (c # q) p \<Longrightarrow> inv_queue q p"
  by (simp add: inv_queue_def)

lemma inv_origin_skip: "inv_origin fetch (c # q) p \<Longrightarrow> inv_origin fetch q p"
  by (simp add: inv_origin_def)

lemma inv_parents_skip:
  assumes "inv_parents fetch (c # q) v p" "id_q c \<in> v"
  shows "inv_parents fetch q v p"
  unfolding inv_parents_def
proof (intro ballI conjI impI)
  fix n pa assume n: "n \<in> set (Nodes p)" "pa \<in> set (fst (fetch (ID n) (Type n)))"
  { assume "ID pa \<in> v"
    then show "\<exists>m \<in> set (Nodes p). ID m = ID pa \<and> CausalNode.Depth m \<le> CausalNode.Depth n + 1"
      using assms(1) n unfolding inv_parents_def by blast }
  { assume nv: "ID pa \<notin> v"
    then obtain x where x: "x \<in> set (c # q)" "id_q x = ID pa" "depth x \<le> CausalNode.Depth n + 1"
      using assms(1) n unfolding inv_parents_def by blast
    then have "x \<noteq> c" using assms(2) nv by auto
    then show "\<exists>x \<in> set q. id_q x = ID pa \<and> depth x \<le> CausalNode.Depth n + 1"
      using x by auto }
qed

lemma trace_inv_skip:
  "trace_inv fetch rt (c # q) v p \<Longrightarrow> id_q c \<in> v \<Longrightarrow> trace_inv fetch rt q v p"
  unfolding trace_inv_def
  by (blast intro: inv_queue_skip inv_origin_skip inv_parents_skip)

subsection \<open>Recording a new node\<close>

lemma inv_nodes_visit:
  assumes "inv_nodes fetch rt v p" "id_q c \<notin> v" "0 \<le> depth c"
  shows "inv_nodes fetch rt (insert (id_q c) v) (visit fetch now c p)"
proof -
  from assms(1) have v: "v = ID ` set (Nodes p)" and d: "distinct (map ID (Nodes p))"
    and e: "Edges p = concat (map (\<lambda>n. snd (fetch (ID n) (Type n))) (Nodes p))"
    and ne: "Nodes p \<noteq> []"
    and h: "ID (hd (Nodes p)) = rt" "Type (hd (Nodes p)) = ''external_output''"
           "CausalNode.Depth (hd (Nodes p)) = 0"
    and b: "\<forall>n \<in> set (Nodes p). 0 \<le> CausalNode.Depth n \<and> CausalNode.Depth n \<le> CausalPath.Depth p"
    and m: "\<exists>n \<in> set (Nodes p). CausalNode.Depth n = CausalPath.Depth p"
    unfolding inv_nodes_def by blast+
  have 1: "insert (id_q c) v = ID ` set (Nodes (visit fetch now c p))"
    using v by auto
  have 2: "distinct (map ID (Nodes (visit fetch now c p)))"
    using d assms(2) v by auto
  have 3: "Edges (visit fetch now c p) =
      concat (map (\<lambda>n. snd (fetch (ID n) (Type n))) (Nodes (visit fetch now c p)))"
    using e by simp
  have 4: "Nodes (visit fetch now c p) \<noteq> []" by simp
  have 5: "hd (Nodes (visit fetch now c p)) = hd (Nodes p)" using ne by simp
  have 6: "\<forall>n \<in> set (Nodes (visit fetch now c p)).
      0 \<le> CausalNode.Depth n \<and> CausalNode.Depth n \<le> CausalPath.Depth (visit fetch now c p)"
    using b assms(3) by auto
  have 7: "\<exists>n \<in> set (Nodes (visit fetch now c p)).
      CausalNode.Depth n = CausalPath.Depth (visit fetch now c p)"
  proof (cases "CausalPath.Depth p \<le> depth c")
    case True
    then have "CausalNode.Depth (node_of now c p) = CausalPath.Depth (visit fetch now c p)"
      by simp
    then show ?thesis by (metis Nodes_visit in_set_conv_decomp)
  next
    case False
    then have "CausalPath.Depth (visit fetch now c p) = CausalPath.Depth p" by simp
    then show ?thesis using m by auto
  qed
  show ?thesis
    unfolding inv_nodes_def using 1 2 3 4 5 6 7 h by simp
qed

lemma inv_queue_visit:
  assumes "inv_queue (c # q) p"
  shows "inv_queue (successor_queue fetch c q v) (visit fetch now c p)"
proof -
  let ?new = "enqueue_parents (insert (id_q c) v) (depth c) (fst (fetch (id_q c) (nodeType c)))"
  from assms have s: "sorted (map depth (c # q))"
    and w: "\<forall>x \<in> set (c # q). \<forall>y \<in> set (c # q). depth y \<le> depth x + 1"
    and b: "\<forall>n \<in> set (Nodes p). \<forall>x \<in> set (c # q). CausalNode.Depth n \<le> depth x"
    unfolding inv_queue_def by blast+
  have hd_le: "\<And>x. x \<in> set q \<Longrightarrow> depth c \<le> depth x" using s by auto
  have le_hd: "\<And>x. x \<in> set q \<Longrightarrow> depth x \<le> depth c + 1" using w by auto
  have new: "\<And>y. y \<in> set ?new \<Longrightarrow> depth y = depth c + 1"
    by (rule depth_enqueue_parents)
  have 1: "sorted (map depth (successor_queue fetch c q v))"
  proof -
    have "sorted (map depth ?new)" by (simp add: map_depth_enqueue_parents)
    moreover have "sorted (map depth q)" using s by simp
    moreover have "\<forall>x \<in> set (map depth q). \<forall>y \<in> set (map depth ?new). x \<le> y"
      using le_hd new by auto
    ultimately show ?thesis by (simp add: successor_queue_def sorted_append)
  qed
  have 2: "\<forall>x \<in> set (successor_queue fetch c q v). \<forall>y \<in> set (successor_queue fetch c q v).
             depth y \<le> depth x + 1"
  proof (intro ballI)
    fix x y assume "x \<in> set (successor_queue fetch c q v)" "y \<in> set (successor_queue fetch c q v)"
    then consider "x \<in> set q" "y \<in> set q" | "x \<in> set q" "y \<in> set ?new"
      | "x \<in> set ?new" "y \<in> set q" | "x \<in> set ?new" "y \<in> set ?new"
      by (auto simp: set_successor_queue)
    then show "depth y \<le> depth x + 1"
    proof cases
      case 1 then show ?thesis using w by auto
    next
      case 2 then show ?thesis using hd_le[of x] new[of y] by simp
    next
      case 3 then show ?thesis using le_hd[of y] new[of x] by simp
    next
      case 4 then show ?thesis using new[of x] new[of y] by simp
    qed
  qed
  have 3: "\<forall>n \<in> set (Nodes (visit fetch now c p)). \<forall>x \<in> set (successor_queue fetch c q v).
             CausalNode.Depth n \<le> depth x"
  proof (intro ballI)
    fix n x assume n: "n \<in> set (Nodes (visit fetch now c p))"
      and x: "x \<in> set (successor_queue fetch c q v)"
    have nc: "CausalNode.Depth n \<le> depth c" using n b by auto
    from x consider "x \<in> set q" | "x \<in> set ?new" by (auto simp: set_successor_queue)
    then show "CausalNode.Depth n \<le> depth x"
    proof cases
      case 1 then show ?thesis using nc hd_le[of x] by simp
    next
      case 2 then show ?thesis using nc new[of x] by simp
    qed
  qed
  show ?thesis unfolding inv_queue_def using 1 2 3 by blast
qed

lemma inv_origin_visit:
  assumes "inv_origin fetch (c # q) p"
  shows "inv_origin fetch (successor_queue fetch c q v) (visit fetch now c p)"
  unfolding inv_origin_def
proof (intro ballI)
  let ?new = "enqueue_parents (insert (id_q c) v) (depth c) (fst (fetch (id_q c) (nodeType c)))"
  fix x assume "x \<in> set (successor_queue fetch c q v)"
  then consider "x \<in> set q" | "x \<in> set ?new" by (auto simp: set_successor_queue)
  then show "\<exists>n \<in> set (Nodes (visit fetch now c p)).
         depth x = CausalNode.Depth n + 1 \<and> id_q x \<in> ID ` set (fst (fetch (ID n) (Type n)))"
  proof cases
    case 1
    then obtain n where "n \<in> set (Nodes p)" "depth x = CausalNode.Depth n + 1"
      "id_q x \<in> ID ` set (fst (fetch (ID n) (Type n)))"
      using assms unfolding inv_origin_def by fastforce
    then show ?thesis by auto
  next
    case 2
    then obtain pa where "pa \<in> set (fst (fetch (id_q c) (nodeType c)))"
      "x = \<lparr>id_q = ID pa, nodeType = Type pa, depth = depth c + 1\<rparr>"
      by (auto simp: in_enqueue_parents)
    then have "depth x = CausalNode.Depth (node_of now c p) + 1 \<and>
      id_q x \<in> ID ` set (fst (fetch (ID (node_of now c p)) (Type (node_of now c p))))"
      by simp
    then show ?thesis by (metis Nodes_visit in_set_conv_decomp)
  qed
qed

lemma inv_reach_visit:
  assumes r: "inv_reach fetch rt p" and o: "inv_origin fetch (c # q) p"
    and n: "inv_nodes fetch rt v p"
  shows "inv_reach fetch rt (visit fetch now c p)"
  unfolding inv_reach_def
proof (intro ballI)
  let ?N = "Nodes p @ [node_of now c p]"
  fix m assume "m \<in> set (Nodes (visit fetch now c p))"
  then consider "m \<in> set (Nodes p)" | "m = node_of now c p" by auto
  then show "ID m \<in> level fetch (Nodes (visit fetch now c p)) rt (nat (CausalNode.Depth m))"
  proof cases
    case 1
    then have "ID m \<in> level fetch (Nodes p) rt (nat (CausalNode.Depth m))"
      using r unfolding inv_reach_def by blast
    then show ?thesis using level_mono[of fetch "Nodes p" rt _ "[node_of now c p]"] by auto
  next
    case 2
    obtain k where k: "k \<in> set (Nodes p)" "depth c = CausalNode.Depth k + 1"
      "id_q c \<in> ID ` set (fst (fetch (ID k) (Type k)))"
      using o unfolding inv_origin_def by fastforce
    have k0: "0 \<le> CausalNode.Depth k" using n k(1) unfolding inv_nodes_def by blast
    have "ID k \<in> level fetch (Nodes p) rt (nat (CausalNode.Depth k))"
      using r k(1) unfolding inv_reach_def by blast
    then have kl: "ID k \<in> level fetch ?N rt (nat (CausalNode.Depth k))"
      using level_mono[of fetch "Nodes p" rt _ "[node_of now c p]"] by auto
    have "nat (depth c) = Suc (nat (CausalNode.Depth k))" using k(2) k0 by simp
    moreover have "id_q c \<in> level fetch ?N rt (Suc (nat (CausalNode.Depth k)))"
      using k(1,3) kl by (simp del: set_append) (use k(1) in auto)
    ultimately show ?thesis using 2 by simp
  qed
qed

lemma inv_parents_visit:
  assumes P: "inv_parents fetch (c # q) v p" and Q: "inv_queue (c # q) p"
    and N: "inv_nodes fetch rt v p" and c: "id_q c \<notin> v"
  shows "inv_parents fetch (successor_queue fetch c q v) (insert (id_q c) v) (visit fetch now c p)"
  unfolding inv_parents_def
proof (intro ballI conjI impI)
  let ?new = "enqueue_parents (insert (id_q c) v) (depth c) (fst (fetch (id_q c) (nodeType c)))"
  let ?nc = "node_of now c p"
  have v: "v = ID ` set (Nodes p)" using N unfolding inv_nodes_def by blast
  have hd_le: "\<And>x. x \<in> set (c # q) \<Longrightarrow> depth c \<le> depth x"
    using Q unfolding inv_queue_def by auto
  have before: "\<And>m. m \<in> set (Nodes p) \<Longrightarrow> CausalNode.Depth m \<le> depth c"
    using Q unfolding inv_queue_def by auto
  have nc_in: "?nc \<in> set (Nodes (visit fetch now c p))" by simp
  fix n pa
  assume n: "n \<in> set (Nodes (visit fetch now c p))"
    and pa: "pa \<in> set (fst (fetch (ID n) (Type n)))"
  from n consider (old) "n \<in> set (Nodes p)" | (new) "n = ?nc" by auto
  note cases_n = this
  { assume iv: "ID pa \<in> insert (id_q c) v"
    show "\<exists>m \<in> set (Nodes (visit fetch now c p)).
            ID m = ID pa \<and> CausalNode.Depth m \<le> CausalNode.Depth n + 1"
    proof (cases "ID pa = id_q c")
      case True
      have "depth c \<le> CausalNode.Depth n + 1"
      proof (rule cases_n)
        assume o: "n \<in> set (Nodes p)"
        have "ID pa \<notin> v" using True c by simp
        then obtain x where "x \<in> set (c # q)" "depth x \<le> CausalNode.Depth n + 1"
          using P o pa unfolding inv_parents_def by blast
        then show ?thesis using hd_le[of x] by simp
      next
        assume "n = ?nc"
        then show ?thesis by simp
      qed
      then have "ID ?nc = ID pa \<and> CausalNode.Depth ?nc \<le> CausalNode.Depth n + 1"
        using True by simp
      then show ?thesis using nc_in by blast
    next
      case False
      then have inv: "ID pa \<in> v" using iv by simp
      show ?thesis
      proof (rule cases_n)
        assume o: "n \<in> set (Nodes p)"
        then obtain m where "m \<in> set (Nodes p)" "ID m = ID pa"
          "CausalNode.Depth m \<le> CausalNode.Depth n + 1"
          using P pa inv unfolding inv_parents_def by blast
        then show ?thesis by auto
      next
        assume nn: "n = ?nc"
        obtain m where m: "m \<in> set (Nodes p)" "ID m = ID pa" using inv v by auto
        then have "CausalNode.Depth m \<le> CausalNode.Depth n + 1"
          using before[of m] nn by simp
        then show ?thesis using m by auto
      qed
    qed }
  { assume niv: "ID pa \<notin> insert (id_q c) v"
    show "\<exists>x \<in> set (successor_queue fetch c q v).
            id_q x = ID pa \<and> depth x \<le> CausalNode.Depth n + 1"
    proof (rule cases_n)
      assume o: "n \<in> set (Nodes p)"
      have "ID pa \<notin> v" using niv by simp
      then obtain x where x: "x \<in> set (c # q)" "id_q x = ID pa"
        "depth x \<le> CausalNode.Depth n + 1"
        using P o pa unfolding inv_parents_def by blast
      then have "x \<noteq> c" using niv by auto
      then have "x \<in> set (successor_queue fetch c q v)"
        using x(1) by (simp add: set_successor_queue)
      then show ?thesis using x by blast
    next
      assume nn: "n = ?nc"
      let ?x = "\<lparr>id_q = ID pa, nodeType = Type pa, depth = depth c + 1\<rparr>"
      have "pa \<in> set (fst (fetch (id_q c) (nodeType c)))" using pa nn by simp
      then have "?x \<in> set ?new" using niv by (auto simp: in_enqueue_parents)
      then have "?x \<in> set (successor_queue fetch c q v)" by (simp add: set_successor_queue)
      moreover have "id_q ?x = ID pa \<and> depth ?x \<le> CausalNode.Depth n + 1" using nn by simp
      ultimately show ?thesis by blast
    qed }
qed

lemma origin_depth_nonneg:
  assumes "inv_origin fetch (c # q) p" "inv_nodes fetch rt v p"
  shows "0 \<le> depth c"
proof -
  obtain k where "k \<in> set (Nodes p)" "depth c = CausalNode.Depth k + 1"
    using assms(1) unfolding inv_origin_def by fastforce
  moreover have "0 \<le> CausalNode.Depth k" using assms(2) calculation(1) unfolding inv_nodes_def by blast
  ultimately show ?thesis by simp
qed

lemma trace_inv_visit:
  assumes "trace_inv fetch rt (c # q) v p" "id_q c \<notin> v"
  shows "trace_inv fetch rt (successor_queue fetch c q v) (insert (id_q c) v) (visit fetch now c p)"
proof -
  from assms(1) have N: "inv_nodes fetch rt v p" and Q: "inv_queue (c # q) p"
    and O: "inv_origin fetch (c # q) p" and R: "inv_reach fetch rt p"
    and P: "inv_parents fetch (c # q) v p"
    unfolding trace_inv_def by blast+
  have "0 \<le> depth c" by (rule origin_depth_nonneg[OF O N])
  then have "inv_nodes fetch rt (insert (id_q c) v) (visit fetch now c p)"
    by (rule inv_nodes_visit[OF N assms(2)])
  moreover have "inv_queue (successor_queue fetch c q v) (visit fetch now c p)"
    by (rule inv_queue_visit[OF Q])
  moreover have "inv_origin fetch (successor_queue fetch c q v) (visit fetch now c p)"
    by (rule inv_origin_visit[OF O])
  moreover have "inv_reach fetch rt (visit fetch now c p)"
    by (rule inv_reach_visit[OF R O N])
  moreover have "inv_parents fetch (successor_queue fetch c q v) (insert (id_q c) v)
       (visit fetch now c p)"
    by (rule inv_parents_visit[OF P Q N assms(2)])
  ultimately show ?thesis unfolding trace_inv_def by blast
qed

subsection \<open>After the root, and at the end\<close>

lemma trace_inv_init:
  "trace_inv fetch outputID (successor_queue fetch (root_item outputID) [] {}) {outputID}
     (visit fetch now (root_item outputID) (empty_path now outputID))"
proof -
  let ?q = "successor_queue fetch (root_item outputID) [] {}"
  let ?p = "visit fetch now (root_item outputID) (empty_path now outputID)"
  let ?n = "node_of now (root_item outputID) (empty_path now outputID)"
  have nodes: "Nodes ?p = [?n]" by (simp add: empty_path_def)
  have sel: "ID ?n = outputID" "Type ?n = ''external_output''" "CausalNode.Depth ?n = 0"
    by (simp_all add: root_item_def)
  have pd: "CausalPath.Depth ?p = 0" by (simp add: empty_path_def root_item_def)
  have q: "?q = enqueue_parents {outputID} 0 (fst (fetch outputID ''external_output''))"
    by (simp add: successor_queue_def root_item_def)
  have qd: "\<And>x. x \<in> set ?q \<Longrightarrow> depth x = 1"
    unfolding q by (drule depth_enqueue_parents) simp
  have 1: "inv_nodes fetch outputID {outputID} ?p"
    unfolding inv_nodes_def nodes using sel pd by (simp add: empty_path_def)
  have 2: "inv_queue ?q ?p"
    unfolding inv_queue_def nodes
  proof (intro conjI)
    show "sorted (map depth ?q)" unfolding q by (simp add: map_depth_enqueue_parents)
    show "\<forall>x \<in> set ?q. \<forall>y \<in> set ?q. depth y \<le> depth x + 1" using qd by simp
    show "\<forall>n \<in> set [?n]. \<forall>x \<in> set ?q. CausalNode.Depth n \<le> depth x" using qd sel by simp
  qed
  have 3: "inv_origin fetch ?q ?p"
    unfolding inv_origin_def nodes
  proof (intro ballI)
    fix x assume x: "x \<in> set ?q"
    then have "id_q x \<in> ID ` set (fst (fetch outputID ''external_output''))"
      unfolding q by (auto simp: in_enqueue_parents)
    then show "\<exists>n \<in> set [?n]. depth x = CausalNode.Depth n + 1 \<and>
                 id_q x \<in> ID ` set (fst (fetch (ID n) (Type n)))"
      using qd[OF x] sel by simp
  qed
  have 4: "inv_reach fetch outputID ?p"
    unfolding inv_reach_def nodes using sel by simp
  have 5: "inv_parents fetch ?q {outputID} ?p"
    unfolding inv_parents_def nodes
  proof (intro ballI conjI impI)
    fix n pa assume n: "n \<in> set [?n]" and pa: "pa \<in> set (fst (fetch (ID n) (Type n)))"
    have nn: "n = ?n" using n by simp
    { assume "ID pa \<in> {outputID}"
      then show "\<exists>m \<in> set [?n]. ID m = ID pa \<and> CausalNode.Depth m \<le> CausalNode.Depth n + 1"
        using sel nn by simp }
    { assume niv: "ID pa \<notin> {outputID}"
      let ?x = "\<lparr>id_q = ID pa, nodeType = Type pa, depth = 0 + 1\<rparr>"
      have "pa \<in> set (fst (fetch outputID ''external_output''))" using pa nn sel by simp
      then have "?x \<in> set ?q" unfolding q using niv by (auto simp: in_enqueue_parents)
      moreover have "id_q ?x = ID pa \<and> depth ?x \<le> CausalNode.Depth n + 1" using nn sel by simp
      ultimately show "\<exists>x \<in> set ?q. id_q x = ID pa \<and> depth x \<le> CausalNode.Depth n + 1"
        by blast }
  qed
  show ?thesis unfolding trace_inv_def using 1 2 3 4 5 by blast
qed

lemma trace_final:
  "\<exists>q v. trace_inv fetch outputID q v (fst (TraceCausality_with fetch now outputID maxDepth))
     \<and> (q = [] \<or> norm_depth maxDepth
                   < CausalPath.Depth (fst (TraceCausality_with fetch now outputID maxDepth)))"
  unfolding TraceCausality_with_unfold fst_conv
  by (rule TraceLoop_invariant[where I = "trace_inv fetch outputID"])
     (auto intro: trace_inv_init trace_inv_skip trace_inv_visit)

lemma traced_final:
  "\<exists>q v. trace_inv fetch outputID q v (traced_path fetch now outputID maxDepth)
     \<and> (q = [] \<or> norm_depth maxDepth < CausalPath.Depth (traced_path fetch now outputID maxDepth))"
  unfolding traced_path_def by (rule trace_final)

subsection \<open>Consequences for the returned path\<close>

lemma node_by_ID:
  assumes "inv_nodes fetch rt v p" "m \<in> set (Nodes p)" "m' \<in> set (Nodes p)" "ID m = ID m'"
  shows "m = m'"
proof -
  have "inj_on ID (set (Nodes p))"
    using assms(1) unfolding inv_nodes_def by (simp add: distinct_map)
  then show ?thesis using assms(2-4) by (auto dest: inj_onD)
qed

lemma root_is_head:
  assumes "inv_nodes fetch rt v p" "m \<in> set (Nodes p)" "ID m = rt"
  shows "CausalNode.Depth m = 0"
proof -
  have ne: "Nodes p \<noteq> []" and h: "ID (hd (Nodes p)) = rt"
    and d: "CausalNode.Depth (hd (Nodes p)) = 0"
    using assms(1) unfolding inv_nodes_def by blast+
  have "hd (Nodes p) \<in> set (Nodes p)" using ne by simp
  then have "m = hd (Nodes p)" using assms(3) h by (intro node_by_ID[OF assms(1,2)]) simp_all
  then show ?thesis using d by simp
qed

lemma level_depth_le:
  assumes I: "trace_inv fetch rt q v p"
  shows "m \<in> set (Nodes p) \<Longrightarrow> ID m \<in> level fetch (Nodes p) rt k \<Longrightarrow> CausalNode.Depth m \<le> int k"
proof (induction k arbitrary: m)
  case 0
  have N: "inv_nodes fetch rt v p" using I unfolding trace_inv_def by blast
  from 0 have "ID m = rt" by simp
  then show ?case using root_is_head[OF N "0.prems"(1)] by simp
next
  case (Suc k)
  have N: "inv_nodes fetch rt v p" and P: "inv_parents fetch q v p"
    using I unfolding trace_inv_def by blast+
  from Suc.prems(2) obtain n pa where n: "n \<in> set (Nodes p)"
    "ID n \<in> level fetch (Nodes p) rt k" "pa \<in> set (fst (fetch (ID n) (Type n)))" "ID m = ID pa"
    by auto
  have nk: "CausalNode.Depth n \<le> int k" by (rule Suc.IH[OF n(1,2)])
  have "v = ID ` set (Nodes p)" using N unfolding inv_nodes_def by blast
  then have "ID pa \<in> v" using Suc.prems(1) n(4) by (metis imageI)
  then obtain m' where m': "m' \<in> set (Nodes p)" "ID m' = ID pa"
    "CausalNode.Depth m' \<le> CausalNode.Depth n + 1"
    using P n(1,3) unfolding inv_parents_def by blast
  have "m = m'" using node_by_ID[OF N Suc.prems(1) m'(1)] n(4) m'(2) by simp
  then show ?case using m'(3) nk by simp
qed

lemma parents_recorded:
  assumes I: "trace_inv fetch rt q v p" and fin: "q = [] \<or> k < CausalPath.Depth p"
    and c: "c \<in> set (Nodes p)" and pa: "pa \<in> set (fst (fetch (ID c) (Type c)))"
    and within: "CausalNode.Depth c < k \<or> CausalPath.Depth p \<le> k"
  shows "ID pa \<in> ID ` set (Nodes p)"
proof (rule ccontr)
  assume no: "ID pa \<notin> ID ` set (Nodes p)"
  have N: "inv_nodes fetch rt v p" and P: "inv_parents fetch q v p" and Q: "inv_queue q p"
    using I unfolding trace_inv_def by blast+
  have "v = ID ` set (Nodes p)" using N unfolding inv_nodes_def by blast
  then have "ID pa \<notin> v" using no by simp
  then obtain x where x: "x \<in> set q" "depth x \<le> CausalNode.Depth c + 1"
    using P c pa unfolding inv_parents_def by blast
  then have over: "k < CausalPath.Depth p" using fin by auto
  then have "CausalNode.Depth c < k" using within by simp
  then have "depth x \<le> k" using x(2) by simp
  moreover obtain m where "m \<in> set (Nodes p)" "CausalNode.Depth m = CausalPath.Depth p"
    using N unfolding inv_nodes_def by blast
  then have "CausalPath.Depth p \<le> depth x" using Q x(1) unfolding inv_queue_def by auto
  ultimately show False using over by simp
qed

lemma distinct_count_list_le: "distinct xs \<Longrightarrow> count_list xs x \<le> 1"
  by (induction xs) auto

lemma distinct_count_list_one: "distinct xs \<Longrightarrow> x \<in> set xs \<Longrightarrow> count_list xs x = 1"
  by (induction xs) (auto simp: count_list_0_iff)

text \<open>
  How far the depth ceiling can be exceeded: every recorded node but the last is within
  the ceiling, and the last is at most one level beyond it.
\<close>

lemma inv_ceiling_skip:
  "inv_ceiling fetch rt k (c # q) v p \<Longrightarrow> id_q c \<in> v \<Longrightarrow> inv_ceiling fetch rt k q v p"
  unfolding inv_ceiling_def by (blast intro: trace_inv_skip)

lemma inv_ceiling_visit:
  assumes I: "inv_ceiling fetch rt k (c # q) v p" and g: "CausalPath.Depth p \<le> k"
    and c: "id_q c \<notin> v"
  shows "inv_ceiling fetch rt k (successor_queue fetch c q v) (insert (id_q c) v)
           (visit fetch now c p)"
proof -
  from I have T: "trace_inv fetch rt (c # q) v p" unfolding inv_ceiling_def by blast
  then have N: "inv_nodes fetch rt v p" and O: "inv_origin fetch (c # q) p"
    unfolding trace_inv_def by blast+
  have b: "\<forall>n \<in> set (Nodes p). CausalNode.Depth n \<le> CausalPath.Depth p"
    using N unfolding inv_nodes_def by blast
  obtain m where m: "m \<in> set (Nodes p)" "depth c = CausalNode.Depth m + 1"
    using O unfolding inv_origin_def by fastforce
  have 1: "trace_inv fetch rt (successor_queue fetch c q v) (insert (id_q c) v)
             (visit fetch now c p)"
    by (rule trace_inv_visit[OF T c])
  have 2: "\<forall>n \<in> set (butlast (Nodes (visit fetch now c p))). CausalNode.Depth n \<le> k"
    using b g by auto
  have "depth c \<le> k + 1" using m b g by fastforce
  then have 3: "CausalPath.Depth (visit fetch now c p) \<le> k + 1" using g by simp
  show ?thesis unfolding inv_ceiling_def using 1 2 3 by blast
qed

lemma ceiling_overshoot_bound:
  "(\<forall>n \<in> set (butlast (Nodes (traced_path fetch now outputID maxDepth))).
      CausalNode.Depth n \<le> norm_depth maxDepth)
   \<and> (\<forall>n \<in> set (Nodes (traced_path fetch now outputID maxDepth)).
      CausalNode.Depth n \<le> norm_depth maxDepth + 1)"
proof -
  let ?k = "norm_depth maxDepth"
  let ?q0 = "successor_queue fetch (root_item outputID) [] {}"
  let ?p0 = "visit fetch now (root_item outputID) (empty_path now outputID)"
  have k: "0 \<le> ?k" by (simp add: norm_depth_def)
  have init: "inv_ceiling fetch outputID ?k ?q0 {outputID} ?p0"
    unfolding inv_ceiling_def using trace_inv_init[of fetch outputID now] k
    by (simp add: empty_path_def root_item_def)
  have "\<exists>q v. inv_ceiling fetch outputID ?k q v (TraceLoop fetch now ?k ?q0 {outputID} ?p0)
          \<and> (q = [] \<or> ?k < CausalPath.Depth (TraceLoop fetch now ?k ?q0 {outputID} ?p0))"
    by (rule TraceLoop_invariant[where I = "inv_ceiling fetch outputID ?k", OF init])
       (auto intro: inv_ceiling_skip inv_ceiling_visit)
  then obtain q v where I: "inv_ceiling fetch outputID ?k q v (traced_path fetch now outputID maxDepth)"
    unfolding traced_path_def TraceCausality_with_unfold fst_conv by blast
  let ?P = "traced_path fetch now outputID maxDepth"
  from I have a: "\<forall>n \<in> set (butlast (Nodes ?P)). CausalNode.Depth n \<le> ?k"
    and d: "CausalPath.Depth ?P \<le> ?k + 1" and T: "trace_inv fetch outputID q v ?P"
    unfolding inv_ceiling_def by blast+
  from T have "inv_nodes fetch outputID v ?P" unfolding trace_inv_def by blast
  then have "\<forall>n \<in> set (Nodes ?P). CausalNode.Depth n \<le> CausalPath.Depth ?P"
    unfolding inv_nodes_def by blast
  then have "\<forall>n \<in> set (Nodes ?P). CausalNode.Depth n \<le> ?k + 1" using d by fastforce
  then show ?thesis using a by blast
qed

subsection \<open>The traversal of the example graph\<close>

lemma demo_trace_full:
  "fst (TraceCausality_with demo_fetch (\<lambda>_. 0) ''out'' 100) =
     \<lparr>OutputID = ''out'',
       Nodes = [rec_node ''out'' ''external_output'' 0 0, rec_node ''w1'' ''workflow_execution'' 0 1,
                rec_node ''a1'' ''agent_action'' 0 2, rec_node ''d1'' ''routing_decision'' 0 3,
                rec_node ''d2'' ''routing_decision'' 0 3, rec_node ''s1'' ''spike_event'' 0 4],
       Edges = [mk_edge ''out'' ''external_output'' ''w1'' ''workflow_execution'',
                mk_edge ''w1'' ''workflow_execution'' ''a1'' ''agent_action'',
                mk_edge ''a1'' ''agent_action'' ''d1'' ''routing_decision'',
                mk_edge ''a1'' ''agent_action'' ''d2'' ''routing_decision'',
                mk_edge ''d1'' ''routing_decision'' ''s1'' ''spike_event'',
                mk_edge ''d2'' ''routing_decision'' ''s1'' ''spike_event'',
                mk_edge ''d2'' ''routing_decision'' ''d1'' ''routing_decision''],
       Depth = 4, TotalLatencyMs = 0, TracedAt = 0\<rparr>"
  by (simp add: TraceCausality_with_def TraceLoop.simps Let_def demo_fetch_def mk_node_def
        rec_node_def max_int_def)

lemma demo_traced_full:
  "traced_path demo_fetch (\<lambda>_. 0) ''out'' 100 =
     \<lparr>OutputID = ''out'',
       Nodes = [rec_node ''out'' ''external_output'' 0 0, rec_node ''w1'' ''workflow_execution'' 0 1,
                rec_node ''a1'' ''agent_action'' 0 2, rec_node ''d1'' ''routing_decision'' 0 3,
                rec_node ''d2'' ''routing_decision'' 0 3, rec_node ''s1'' ''spike_event'' 0 4],
       Edges = [mk_edge ''out'' ''external_output'' ''w1'' ''workflow_execution'',
                mk_edge ''w1'' ''workflow_execution'' ''a1'' ''agent_action'',
                mk_edge ''a1'' ''agent_action'' ''d1'' ''routing_decision'',
                mk_edge ''a1'' ''agent_action'' ''d2'' ''routing_decision'',
                mk_edge ''d1'' ''routing_decision'' ''s1'' ''spike_event'',
                mk_edge ''d2'' ''routing_decision'' ''s1'' ''spike_event'',
                mk_edge ''d2'' ''routing_decision'' ''d1'' ''routing_decision''],
       Depth = 4, TotalLatencyMs = 0, TracedAt = 0\<rparr>"
  unfolding traced_path_def by (rule demo_trace_full)

lemma demo_trace_cut:
  "fst (TraceCausality_with demo_fetch (\<lambda>_. 0) ''out'' 1) =
     \<lparr>OutputID = ''out'',
       Nodes = [rec_node ''out'' ''external_output'' 0 0, rec_node ''w1'' ''workflow_execution'' 0 1,
                rec_node ''a1'' ''agent_action'' 0 2],
       Edges = [mk_edge ''out'' ''external_output'' ''w1'' ''workflow_execution'',
                mk_edge ''w1'' ''workflow_execution'' ''a1'' ''agent_action'',
                mk_edge ''a1'' ''agent_action'' ''d1'' ''routing_decision'',
                mk_edge ''a1'' ''agent_action'' ''d2'' ''routing_decision''],
       Depth = 2, TotalLatencyMs = 0, TracedAt = 0\<rparr>"
  by (simp add: TraceCausality_with_def TraceLoop.simps Let_def demo_fetch_def mk_node_def
        rec_node_def max_int_def)

subsection \<open>The derived views as filters and counts\<close>

lemma fold_append_filter:
  "fold (\<lambda>x acc. if P x then acc @ [x] else acc) xs ys = ys @ filter P xs"
  by (induction xs arbitrary: ys) simp_all

lemma CountByType_fold: "CountByType p = fold count_step (Nodes p) Map.empty"
  unfolding CountByType_def count_step_def[abs_def] by (rule refl)

lemma count_step_apply:
  "count_step n m t =
     (if t = Type n then Some ((case m t of None \<Rightarrow> 0 | Some c \<Rightarrow> c) + 1) else m t)"
  by (simp add: count_step_def)

lemma fold_count:
  "fold count_step ns m t =
     (if t \<in> Type ` set ns
      then Some ((case m t of None \<Rightarrow> 0 | Some c \<Rightarrow> c) + int (length (filter (\<lambda>n. Type n = t) ns)))
      else m t)"
proof (induction ns arbitrary: m)
  case Nil
  show ?case by simp
next
  case (Cons n ns)
  have "fold count_step (n # ns) m t = fold count_step ns (count_step n m) t" by simp
  also have "\<dots> = (if t \<in> Type ` set ns
      then Some ((case count_step n m t of None \<Rightarrow> 0 | Some c \<Rightarrow> c)
                  + int (length (filter (\<lambda>n. Type n = t) ns)))
      else count_step n m t)"
    by (rule Cons.IH)
  also have "\<dots> = (if t \<in> Type ` set (n # ns)
      then Some ((case m t of None \<Rightarrow> 0 | Some c \<Rightarrow> c)
                  + int (length (filter (\<lambda>n. Type n = t) (n # ns))))
      else m t)"
    unfolding count_step_apply by (cases "t = Type n") (auto simp: filter_empty_conv image_iff)
  finally show ?case .
qed

lemma length_filter_Type:
  "length (filter (\<lambda>n. Type n = t) ns) = count (mset (map Type ns)) t"
  by (induction ns) simp_all

lemma Type_image_mset: "t \<in> Type ` set ns \<longleftrightarrow> t \<in># mset (map Type ns)"
  by simp

section \<open>The properties\<close>

subsection \<open>C1: tracing an id that is not in the store\<close>

text \<open>
  Claim C1 says that \<^verbatim>\<open>TraceCausality\<close> returns a NotFound error for an output id that
  does not exist in the store. The code never looks the id up and has no error to
  return: on a store that holds no entity at all, tracing \<open>missing\<close> succeeds with the
  path that holds the root alone.
\<close>

theorem TraceCausality_missing_id_counterexample:
  "''missing'' \<notin> set (client empty_store)
   \<and> TraceCausality empty_store (\<lambda>_. 0) ''missing'' 100 =
       ((\<lparr>OutputID = ''missing'',
          Nodes = [\<lparr>ID = ''missing'', Type = ''external_output'', Timestamp = 0, Depth = 0,
                    Metadata = Map.empty\<rparr>],
          Edges = [], Depth = 0, TotalLatencyMs = 0, TracedAt = 0\<rparr>, None), empty_store)"
  by (simp add: empty_store_def TraceCausality_def TraceCausality_with_def TraceLoop.simps
        getParentNodes_def Let_def max_int_def)

text \<open>
  Claim C1, amended: for every output id, in the store or not, and every parent lookup,
  \<^verbatim>\<open>TraceCausality\<close> returns the \<^verbatim>\<open>nil\<close> error and a path for that id whose first
  node is the root (type \<open>external_output\<close>, depth 0); with the parent lookup the
  repository ships, the path holds the root alone.
\<close>

theorem TraceCausality_never_errors:
  "snd (TraceCausality_with fetch now outputID maxDepth) = None
   \<and> snd (fst (TraceCausality s now outputID maxDepth)) = None
   \<and> OutputID (fst (TraceCausality_with fetch now outputID maxDepth)) = outputID
   \<and> ID (hd (Nodes (fst (TraceCausality_with fetch now outputID maxDepth)))) = outputID
   \<and> Type (hd (Nodes (fst (TraceCausality_with fetch now outputID maxDepth)))) = ''external_output''
   \<and> CausalNode.Depth (hd (Nodes (fst (TraceCausality_with fetch now outputID maxDepth)))) = 0
   \<and> fst (fst (TraceCausality s now outputID maxDepth)) = root_only_path now outputID"
proof -
  let ?P = "fst (TraceCausality_with fetch now outputID maxDepth)"
  obtain q v where "trace_inv fetch outputID q v ?P" using trace_final by blast
  then have N: "inv_nodes fetch outputID v ?P" unfolding trace_inv_def by blast
  have h: "ID (hd (Nodes ?P)) = outputID" "Type (hd (Nodes ?P)) = ''external_output''"
    "CausalNode.Depth (hd (Nodes ?P)) = 0"
    using N unfolding inv_nodes_def by blast+
  have o: "OutputID ?P = outputID"
    unfolding TraceCausality_with_unfold fst_conv
    by (simp add: OutputID_TraceLoop empty_path_def)
  have r: "fst (TraceCausality s now outputID maxDepth) = (root_only_path now outputID, None)"
    by (simp add: TraceCausality_def trace_root_only getParentNodes_def)
  show ?thesis using h o r by (simp add: error_is_nil)
qed

text \<open>The amended C1 at the empty store.\<close>

theorem TraceCausality_never_errors_witness:
  "snd (fst (TraceCausality empty_store (\<lambda>_. 0) ''missing'' 100)) = None
   \<and> fst (fst (TraceCausality empty_store (\<lambda>_. 0) ''missing'' 100)) =
       root_only_path (\<lambda>_. 0) ''missing''"
  using TraceCausality_never_errors[of demo_fetch "\<lambda>_. 0" "''missing''" 100 empty_store]
  by blast

subsection \<open>C2: fan-in\<close>

text \<open>
  Claim C2 says that for every graph with fan-in and every call the shared parent appears
  exactly once in \<^verbatim>\<open>Nodes\<close> and every incoming parent edge appears in \<^verbatim>\<open>Edges\<close>.
  As stated it fails where the traversal does not get as far as the fan-in: in the
  example graph \<open>d1\<close> and \<open>d2\<close> share \<open>s1\<close>, and a trace of \<open>out\<close> with ceiling 1
  records neither \<open>s1\<close> nor the two edges into it.
\<close>

theorem TraceCausality_fan_in_counterexample:
  "mk_node ''s1'' ''spike_event'' \<in> set (fst (demo_fetch ''d1'' ''routing_decision''))
   \<and> mk_node ''s1'' ''spike_event'' \<in> set (fst (demo_fetch ''d2'' ''routing_decision''))
   \<and> count_list (map ID (Nodes (traced_path demo_fetch (\<lambda>_. 0) ''out'' 1))) ''s1'' = 0
   \<and> mk_edge ''d1'' ''routing_decision'' ''s1'' ''spike_event''
        \<notin> set (Edges (traced_path demo_fetch (\<lambda>_. 0) ''out'' 1))
   \<and> mk_edge ''d2'' ''routing_decision'' ''s1'' ''spike_event''
        \<notin> set (Edges (traced_path demo_fetch (\<lambda>_. 0) ''out'' 1))"
  by (simp add: traced_path_def demo_trace_cut demo_fetch_def rec_node_def mk_edge_def)

text \<open>
  Claim C2, amended: for every parent lookup and every call, no id appears more than once
  in \<^verbatim>\<open>Nodes\<close>; \<^verbatim>\<open>Edges\<close> is exactly the edge lists fetched for the recorded nodes,
  in order, so every parent edge of a recorded node appears in it, whether or not the
  parent was visited before; and every parent of a recorded node \<open>c\<close> appears exactly
  once in \<^verbatim>\<open>Nodes\<close> when \<open>c\<close> lies below the ceiling or the traversal ended within
  the ceiling. In particular a parent shared by two such nodes appears exactly once,
  and both edges into it are in \<^verbatim>\<open>Edges\<close>.
\<close>

theorem TraceCausality_fan_in:
  "(\<forall>x. count_list (map ID (Nodes (traced_path fetch now outputID maxDepth))) x \<le> 1)
   \<and> Edges (traced_path fetch now outputID maxDepth) =
       concat (map (\<lambda>n. snd (fetch (ID n) (Type n)))
                 (Nodes (traced_path fetch now outputID maxDepth)))
   \<and> (\<forall>c \<in> set (Nodes (traced_path fetch now outputID maxDepth)).
        CausalNode.Depth c < norm_depth maxDepth
        \<or> CausalPath.Depth (traced_path fetch now outputID maxDepth) \<le> norm_depth maxDepth
        \<longrightarrow> (\<forall>pa \<in> set (fst (fetch (ID c) (Type c))).
              count_list (map ID (Nodes (traced_path fetch now outputID maxDepth))) (ID pa) = 1))"
proof -
  let ?P = "traced_path fetch now outputID maxDepth"
  obtain q v where I: "trace_inv fetch outputID q v ?P"
    and fin: "q = [] \<or> norm_depth maxDepth < CausalPath.Depth ?P"
    using traced_final by blast
  then have N: "inv_nodes fetch outputID v ?P" unfolding trace_inv_def by blast
  have d: "distinct (map ID (Nodes ?P))"
    and e: "Edges ?P = concat (map (\<lambda>n. snd (fetch (ID n) (Type n))) (Nodes ?P))"
    using N unfolding inv_nodes_def by blast+
  have 1: "\<forall>x. count_list (map ID (Nodes ?P)) x \<le> 1"
    using distinct_count_list_le[OF d] by blast
  have 3: "\<forall>c \<in> set (Nodes ?P).
        CausalNode.Depth c < norm_depth maxDepth \<or> CausalPath.Depth ?P \<le> norm_depth maxDepth
        \<longrightarrow> (\<forall>pa \<in> set (fst (fetch (ID c) (Type c))). count_list (map ID (Nodes ?P)) (ID pa) = 1)"
  proof (intro ballI impI)
    fix c pa assume c: "c \<in> set (Nodes ?P)"
      and w: "CausalNode.Depth c < norm_depth maxDepth \<or> CausalPath.Depth ?P \<le> norm_depth maxDepth"
      and pa: "pa \<in> set (fst (fetch (ID c) (Type c)))"
    have "ID pa \<in> ID ` set (Nodes ?P)" by (rule parents_recorded[OF I fin c pa w])
    then have "ID pa \<in> set (map ID (Nodes ?P))" by simp
    then show "count_list (map ID (Nodes ?P)) (ID pa) = 1"
      by (rule distinct_count_list_one[OF d])
  qed
  show ?thesis using 1 e 3 by blast
qed

text \<open>
  The amended C2 on the example graph, traced in full: \<open>d1\<close> and \<open>d2\<close> are recorded,
  their shared parent \<open>s1\<close> once, and the edges into \<open>s1\<close> as well as the edge from
  \<open>d2\<close> to the already visited \<open>d1\<close> are in \<^verbatim>\<open>Edges\<close>.
\<close>

theorem TraceCausality_fan_in_witness:
  "rec_node ''d1'' ''routing_decision'' 0 3 \<in> set (Nodes (traced_path demo_fetch (\<lambda>_. 0) ''out'' 100))
   \<and> rec_node ''d2'' ''routing_decision'' 0 3 \<in> set (Nodes (traced_path demo_fetch (\<lambda>_. 0) ''out'' 100))
   \<and> mk_node ''s1'' ''spike_event'' \<in> set (fst (demo_fetch ''d1'' ''routing_decision''))
   \<and> mk_node ''s1'' ''spike_event'' \<in> set (fst (demo_fetch ''d2'' ''routing_decision''))
   \<and> CausalNode.Depth (rec_node ''d1'' ''routing_decision'' 0 3) < norm_depth 100
   \<and> count_list (map ID (Nodes (traced_path demo_fetch (\<lambda>_. 0) ''out'' 100))) ''s1'' = 1
   \<and> mk_edge ''d1'' ''routing_decision'' ''s1'' ''spike_event''
        \<in> set (Edges (traced_path demo_fetch (\<lambda>_. 0) ''out'' 100))
   \<and> mk_edge ''d2'' ''routing_decision'' ''s1'' ''spike_event''
        \<in> set (Edges (traced_path demo_fetch (\<lambda>_. 0) ''out'' 100))
   \<and> mk_edge ''d2'' ''routing_decision'' ''d1'' ''routing_decision''
        \<in> set (Edges (traced_path demo_fetch (\<lambda>_. 0) ''out'' 100))"
proof -
  let ?P = "traced_path demo_fetch (\<lambda>_. 0) ''out'' 100"
  let ?d1 = "rec_node ''d1'' ''routing_decision'' 0 3"
  let ?d2 = "rec_node ''d2'' ''routing_decision'' 0 3"
  let ?s1 = "mk_node ''s1'' ''spike_event''"
  have m1: "?d1 \<in> set (Nodes ?P)" and m2: "?d2 \<in> set (Nodes ?P)"
    by (simp_all add: demo_traced_full)
  have sel: "ID ?d1 = ''d1''" "Type ?d1 = ''routing_decision''" "CausalNode.Depth ?d1 = 3"
    "ID ?d2 = ''d2''" "Type ?d2 = ''routing_decision''" "ID ?s1 = ''s1''"
    by (simp_all add: rec_node_def mk_node_def)
  have p1: "?s1 \<in> set (fst (demo_fetch ''d1'' ''routing_decision''))"
    and p2: "?s1 \<in> set (fst (demo_fetch ''d2'' ''routing_decision''))"
    by (simp_all add: demo_fetch_def)
  have w: "CausalNode.Depth ?d1 < norm_depth 100" by (simp add: sel norm_depth_def)
  note t = TraceCausality_fan_in[of demo_fetch "\<lambda>_. 0" "''out''" 100]
  from t have once: "\<forall>c \<in> set (Nodes ?P).
        CausalNode.Depth c < norm_depth 100 \<or> CausalPath.Depth ?P \<le> norm_depth 100
        \<longrightarrow> (\<forall>pa \<in> set (fst (demo_fetch (ID c) (Type c))). count_list (map ID (Nodes ?P)) (ID pa) = 1)"
    and e: "Edges ?P = concat (map (\<lambda>n. snd (demo_fetch (ID n) (Type n))) (Nodes ?P))"
    by blast+
  from once m1 w have "\<forall>pa \<in> set (fst (demo_fetch (ID ?d1) (Type ?d1))).
      count_list (map ID (Nodes ?P)) (ID pa) = 1" by blast
  then have c: "count_list (map ID (Nodes ?P)) ''s1'' = 1" using p1 sel by (metis)
  have sub: "\<And>n. n \<in> set (Nodes ?P) \<Longrightarrow> set (snd (demo_fetch (ID n) (Type n))) \<subseteq> set (Edges ?P)"
    unfolding e by auto
  have e1: "mk_edge ''d1'' ''routing_decision'' ''s1'' ''spike_event'' \<in> set (Edges ?P)"
    using sub[OF m1] by (simp add: sel demo_fetch_def)
  have e2: "mk_edge ''d2'' ''routing_decision'' ''s1'' ''spike_event'' \<in> set (Edges ?P)"
    and e3: "mk_edge ''d2'' ''routing_decision'' ''d1'' ''routing_decision'' \<in> set (Edges ?P)"
    using sub[OF m2] by (simp_all add: sel demo_fetch_def)
  show ?thesis using m1 m2 p1 p2 w c e1 e2 e3 by blast
qed

subsection \<open>C3: the depth ceiling\<close>



text \<open>
  The first half rests on the shipped parent lookup, which returns no parents. For a
  lookup that does return parents, the guard \<^verbatim>\<open>path.Depth <= maxDepth\<close> is tested
  against the nodes recorded so far, before the next entry is taken, so an entry one
  level beyond the ceiling that is already queued is still recorded:
  \<open>ceiling_overshoot_bound\<close> above bounds it (every node but the last within the
  ceiling, the last at most one level beyond), and on the example graph with ceiling 1
  the trace of \<open>out\<close> ends with \<open>a1\<close> at depth 2.
\<close>

lemma demo_trace_beyond_ceiling:
  "map (\<lambda>n. (ID n, CausalNode.Depth n)) (Nodes (traced_path demo_fetch (\<lambda>_. 0) ''out'' 1)) =
     [(''out'', 0), (''w1'', 1), (''a1'', 2)]
   \<and> CausalPath.Depth (traced_path demo_fetch (\<lambda>_. 0) ''out'' 1) = 2"
  by (simp add: traced_path_def demo_trace_cut rec_node_def)

subsection \<open>C4: depths are breadth-first distances\<close>

text \<open>
  Claim C4: in every returned path, the depth of each node is its breadth-first distance
  from the root along the discovered parent edges (the node's id is in the level of its
  depth and in no earlier level), and the path's \<^verbatim>\<open>Depth\<close> is the largest depth in
  \<^verbatim>\<open>Nodes\<close>.
\<close>

theorem TraceCausality_depth_is_bfs_distance:
  "(\<forall>n \<in> set (Nodes (traced_path fetch now outputID maxDepth)).
       0 \<le> CausalNode.Depth n
     \<and> ID n \<in> level fetch (Nodes (traced_path fetch now outputID maxDepth)) outputID
                 (nat (CausalNode.Depth n))
     \<and> (\<forall>k. ID n \<in> level fetch (Nodes (traced_path fetch now outputID maxDepth)) outputID k
             \<longrightarrow> nat (CausalNode.Depth n) \<le> k))
   \<and> CausalPath.Depth (traced_path fetch now outputID maxDepth) =
       Max (CausalNode.Depth ` set (Nodes (traced_path fetch now outputID maxDepth)))"
proof -
  let ?P = "traced_path fetch now outputID maxDepth"
  obtain q v where I: "trace_inv fetch outputID q v ?P"
    using traced_final by blast
  then have N: "inv_nodes fetch outputID v ?P" and R: "inv_reach fetch outputID ?P"
    unfolding trace_inv_def by blast+
  have bounds: "\<forall>n \<in> set (Nodes ?P). 0 \<le> CausalNode.Depth n \<and> CausalNode.Depth n \<le> CausalPath.Depth ?P"
    and attained: "\<exists>n \<in> set (Nodes ?P). CausalNode.Depth n = CausalPath.Depth ?P"
    using N unfolding inv_nodes_def by blast+
  have 1: "\<forall>n \<in> set (Nodes ?P). 0 \<le> CausalNode.Depth n
     \<and> ID n \<in> level fetch (Nodes ?P) outputID (nat (CausalNode.Depth n))
     \<and> (\<forall>k. ID n \<in> level fetch (Nodes ?P) outputID k \<longrightarrow> nat (CausalNode.Depth n) \<le> k)"
  proof (intro ballI conjI allI impI)
    fix n assume n: "n \<in> set (Nodes ?P)"
    show "0 \<le> CausalNode.Depth n" using bounds n by blast
    show "ID n \<in> level fetch (Nodes ?P) outputID (nat (CausalNode.Depth n))"
      using R n unfolding inv_reach_def by blast
    fix k assume "ID n \<in> level fetch (Nodes ?P) outputID k"
    then have "CausalNode.Depth n \<le> int k" by (rule level_depth_le[OF I n])
    then show "nat (CausalNode.Depth n) \<le> k" by simp
  qed
  have 2: "CausalPath.Depth ?P = Max (CausalNode.Depth ` set (Nodes ?P))"
  proof (rule antisym)
    obtain n where n: "n \<in> set (Nodes ?P)" "CausalNode.Depth n = CausalPath.Depth ?P"
      using attained by blast
    have "CausalNode.Depth n \<le> Max (CausalNode.Depth ` set (Nodes ?P))"
      by (rule Max_ge) (use n(1) in simp_all)
    then show "CausalPath.Depth ?P \<le> Max (CausalNode.Depth ` set (Nodes ?P))"
      using n(2) by simp
    have "Nodes ?P \<noteq> []" using n(1) by auto
    then show "Max (CausalNode.Depth ` set (Nodes ?P)) \<le> CausalPath.Depth ?P"
      using bounds by (simp add: Max_le_iff)
  qed
  show ?thesis using 1 2 by blast
qed

text \<open>C4 on the example graph: \<open>s1\<close> is recorded at depth 4, four hops from \<open>out\<close> and not three.\<close>

theorem TraceCausality_depth_is_bfs_distance_witness:
  "rec_node ''s1'' ''spike_event'' 0 4 \<in> set (Nodes (traced_path demo_fetch (\<lambda>_. 0) ''out'' 100))
   \<and> ''s1'' \<in> level demo_fetch (Nodes (traced_path demo_fetch (\<lambda>_. 0) ''out'' 100)) ''out'' 4
   \<and> ''s1'' \<notin> level demo_fetch (Nodes (traced_path demo_fetch (\<lambda>_. 0) ''out'' 100)) ''out'' 3
   \<and> CausalPath.Depth (traced_path demo_fetch (\<lambda>_. 0) ''out'' 100) = 4"
proof -
  let ?P = "traced_path demo_fetch (\<lambda>_. 0) ''out'' 100"
  let ?n = "rec_node ''s1'' ''spike_event'' 0 4"
  have mem: "?n \<in> set (Nodes ?P)" by (simp add: demo_traced_full)
  have sel: "ID ?n = ''s1''" "nat (CausalNode.Depth ?n) = 4" by (simp_all add: rec_node_def)
  note t = TraceCausality_depth_is_bfs_distance[of demo_fetch "\<lambda>_. 0" "''out''" 100]
  from t mem have a: "ID ?n \<in> level demo_fetch (Nodes ?P) ''out'' (nat (CausalNode.Depth ?n))"
    and b: "\<forall>k. ID ?n \<in> level demo_fetch (Nodes ?P) ''out'' k \<longrightarrow> nat (CausalNode.Depth ?n) \<le> k"
    by blast+
  have 1: "''s1'' \<in> level demo_fetch (Nodes ?P) ''out'' 4" using a sel by simp
  have 2: "''s1'' \<notin> level demo_fetch (Nodes ?P) ''out'' 3"
  proof
    assume "''s1'' \<in> level demo_fetch (Nodes ?P) ''out'' 3"
    then have "nat (CausalNode.Depth ?n) \<le> 3" using b sel by (metis)
    then show False using sel by simp
  qed
  have 3: "CausalPath.Depth ?P = 4" by (simp add: demo_traced_full)
  show ?thesis using mem 1 2 3 by blast
qed

subsection \<open>C5: non-positive arguments\<close>

text \<open>
  Claim C5: a non-positive \<^verbatim>\<open>maxDepth\<close> is normalised to 100, a non-positive
  \<^verbatim>\<open>minOccurrences\<close> to 5 and a non-positive \<^verbatim>\<open>limit\<close> to 100, and none of the
  three operations returns an error. For \<^verbatim>\<open>TraceCausality\<close>, with any parent lookup,
  the loop runs from the root entry and the empty path with ceiling 100 when
  \<open>maxDepth \<le> 0\<close> and with \<open>maxDepth\<close> itself otherwise. For the other two, the
  parameter holds 5 (respectively 100) at the return when it was non-positive and its
  own value otherwise. Each call therefore returns what the call with the default
  returns, and the error is \<^verbatim>\<open>nil\<close> for every argument.
\<close>

theorem non_positive_arguments_normalised:
  "(maxDepth \<le> 0 \<longrightarrow>
       TraceCausality_with fetch now outputID maxDepth =
         (TraceLoop fetch now 100 [root_item outputID] {} (empty_path now outputID), None)
     \<and> TraceCausality s now outputID maxDepth = TraceCausality s now outputID 100
     \<and> TraceCausality_with fetch now outputID maxDepth = TraceCausality_with fetch now outputID 100)
   \<and> (0 < maxDepth \<longrightarrow>
       TraceCausality_with fetch now outputID maxDepth =
         (TraceLoop fetch now maxDepth [root_item outputID] {} (empty_path now outputID), None))
   \<and> (minOccurrences \<le> 0 \<longrightarrow>
       fst (FindEmergentPatterns_body s startTime endTime minOccurrences) = 5
     \<and> FindEmergentPatterns s startTime endTime minOccurrences =
       FindEmergentPatterns s startTime endTime 5)
   \<and> (0 < minOccurrences \<longrightarrow>
       fst (FindEmergentPatterns_body s startTime endTime minOccurrences) = minOccurrences)
   \<and> (limit \<le> 0 \<longrightarrow>
       fst (QueryByPatternHash_body s patternHash limit) = 100
     \<and> QueryByPatternHash s patternHash limit = QueryByPatternHash s patternHash 100)
   \<and> (0 < limit \<longrightarrow> fst (QueryByPatternHash_body s patternHash limit) = limit)
   \<and> snd (fst (TraceCausality s now outputID maxDepth)) = None
   \<and> snd (TraceCausality_with fetch now outputID maxDepth) = None
   \<and> snd (fst (FindEmergentPatterns s startTime endTime minOccurrences)) = None
   \<and> snd (fst (QueryByPatternHash s patternHash limit)) = None"
  by (simp add: TraceCausality_def TraceCausality_with_def FindEmergentPatterns_def
        FindEmergentPatterns_body_def QueryByPatternHash_def QueryByPatternHash_body_def
        root_item_def empty_path_def)

text \<open>
  C5 at \<open>maxDepth = 0\<close>, \<open>minOccurrences = -3\<close> and \<open>limit = 0\<close>, and at the
  positive arguments 7, 2 and 10.
\<close>

theorem non_positive_arguments_normalised_witness:
  "(0::int) \<le> 0 \<and> (-3::int) \<le> 0 \<and> (0::int) < 7 \<and> (0::int) < 2 \<and> (0::int) < 10
   \<and> TraceCausality_with demo_fetch (\<lambda>_. 0) ''out'' 0 =
       (TraceLoop demo_fetch (\<lambda>_. 0) 100 [root_item ''out''] {} (empty_path (\<lambda>_. 0) ''out''), None)
   \<and> TraceCausality_with demo_fetch (\<lambda>_. 0) ''out'' 7 =
       (TraceLoop demo_fetch (\<lambda>_. 0) 7 [root_item ''out''] {} (empty_path (\<lambda>_. 0) ''out''), None)
   \<and> TraceCausality empty_store (\<lambda>_. 0) ''out'' 0 = TraceCausality empty_store (\<lambda>_. 0) ''out'' 100
   \<and> fst (FindEmergentPatterns_body empty_store 0 10 (-3)) = 5
   \<and> fst (FindEmergentPatterns_body empty_store 0 10 2) = 2
   \<and> FindEmergentPatterns empty_store 0 10 (-3) = FindEmergentPatterns empty_store 0 10 5
   \<and> fst (QueryByPatternHash_body empty_store ''h'' 0) = 100
   \<and> fst (QueryByPatternHash_body empty_store ''h'' 10) = 10
   \<and> QueryByPatternHash empty_store ''h'' 0 = QueryByPatternHash empty_store ''h'' 100
   \<and> snd (fst (TraceCausality empty_store (\<lambda>_. 0) ''out'' 0)) = None
   \<and> snd (fst (FindEmergentPatterns empty_store 0 10 (-3))) = None
   \<and> snd (fst (QueryByPatternHash empty_store ''h'' 0)) = None"
proof -
  have h: "(0::int) \<le> 0" "(-3::int) \<le> 0" "(0::int) < 7" "(0::int) < 2" "(0::int) < 10"
    by simp_all
  show ?thesis
    using h
      non_positive_arguments_normalised[of 0 demo_fetch "\<lambda>_. 0" "''out''" empty_store
        "-3" 0 10 0 "''h''"]
      non_positive_arguments_normalised[of 7 demo_fetch "\<lambda>_. 0" "''out''" empty_store
        2 0 10 10 "''h''"]
    by blast
qed

subsection \<open>C6: emergent patterns\<close>

text \<open>
  Claim C6 says that with fingerprint \<open>A\<close> occurring 3 times and \<open>B\<close> 7 times in the
  window, \<^verbatim>\<open>FindEmergentPatterns\<close> with \<open>minOccurrences = 5\<close> returns \<open>B\<close>. The
  shipped operation does no aggregation; on such a store it returns the empty list.
\<close>

theorem FindEmergentPatterns_counterexample:
  "length (filter (\<lambda>e. fst e = ''A'') (client spike_store)) = 3
   \<and> length (filter (\<lambda>e. fst e = ''B'') (client spike_store)) = 7
   \<and> fst (fst (FindEmergentPatterns spike_store 0 100 5)) = []"
  by (simp add: spike_store_def FindEmergentPatterns_def FindEmergentPatterns_body_def)

text \<open>
  Claim C6, amended: for every store, window and \<open>minOccurrences\<close>,
  \<^verbatim>\<open>FindEmergentPatterns\<close> returns the empty list and the \<^verbatim>\<open>nil\<close> error and leaves
  the service as it was; its result is ordered by descending occurrence count with ties
  broken by the most recent last-seen time, as every result set must be.
\<close>

theorem FindEmergentPatterns_returns_nothing:
  "FindEmergentPatterns s startTime endTime minOccurrences = (([], None), s)
   \<and> ordered_by_count_then_last_seen
        (fst (fst (FindEmergentPatterns s startTime endTime minOccurrences)))"
  by (simp add: FindEmergentPatterns_def FindEmergentPatterns_body_def
        ordered_by_count_then_last_seen_def)

text \<open>The amended C6 at the store with three \<open>A\<close> and seven \<open>B\<close>.\<close>

theorem FindEmergentPatterns_returns_nothing_witness:
  "FindEmergentPatterns spike_store 0 100 5 = (([], None), spike_store)
   \<and> ordered_by_count_then_last_seen (fst (fst (FindEmergentPatterns spike_store 0 100 5)))"
  using FindEmergentPatterns_returns_nothing[of spike_store 0 100 5] by blast

subsection \<open>C7: an output without parents\<close>

text \<open>
  Claim C7: when the output has no causal parents (its parent lookup returns the empty
  pair), \<^verbatim>\<open>TraceCausality\<close> returns the path whose \<^verbatim>\<open>Nodes\<close> is the root alone, of
  type \<open>external_output\<close> and depth 0, and whose \<^verbatim>\<open>Edges\<close> is empty. With the parent
  lookup the repository ships this is the result for every output id.
\<close>

theorem TraceCausality_root_only:
  "(fetch outputID ''external_output'' = ([], [])
      \<longrightarrow> TraceCausality_with fetch now outputID maxDepth = (root_only_path now outputID, None))
   \<and> fst (TraceCausality s now outputID maxDepth) = (root_only_path now outputID, None)
   \<and> length (Nodes (root_only_path now outputID)) = 1
   \<and> ID (hd (Nodes (root_only_path now outputID))) = outputID
   \<and> Type (hd (Nodes (root_only_path now outputID))) = ''external_output''
   \<and> CausalNode.Depth (hd (Nodes (root_only_path now outputID))) = 0
   \<and> Edges (root_only_path now outputID) = []"
proof -
  have "getParentNodes s outputID ''external_output'' = ([], [])"
    by (simp add: getParentNodes_def)
  then have "TraceCausality_with (getParentNodes s) now outputID maxDepth =
      (root_only_path now outputID, None)"
    by (rule trace_root_only)
  then have "fst (TraceCausality s now outputID maxDepth) = (root_only_path now outputID, None)"
    by (simp add: TraceCausality_def)
  then show ?thesis by (simp add: trace_root_only root_only_path_def)
qed

text \<open>C7 at the parentless id \<open>s1\<close> of the example graph, and at the shipped service.\<close>

theorem TraceCausality_root_only_witness:
  "demo_fetch ''s1'' ''external_output'' = ([], [])
   \<and> TraceCausality_with demo_fetch (\<lambda>_. 0) ''s1'' 100 = (root_only_path (\<lambda>_. 0) ''s1'', None)
   \<and> fst (TraceCausality empty_store (\<lambda>_. 0) ''out'' 100) = (root_only_path (\<lambda>_. 0) ''out'', None)"
proof -
  have h: "demo_fetch ''s1'' ''external_output'' = ([], [])" by (simp add: demo_fetch_def)
  show ?thesis
    using h TraceCausality_root_only[of demo_fetch "''s1''" "\<lambda>_. 0" 100 empty_store]
      TraceCausality_root_only[of demo_fetch "''out''" "\<lambda>_. 0" 100 empty_store]
    by blast
qed

subsection \<open>C8: derived views\<close>

text \<open>
  Claim C8: \<^verbatim>\<open>GetSpikeEvents\<close> returns exactly the nodes of type \<open>spike_event\<close>, in
  list order, \<^verbatim>\<open>GetDecisions\<close> exactly those of type \<open>routing_decision\<close>, and
  \<^verbatim>\<open>CountByType\<close> maps each type that occurs to the number of nodes of that type (and
  has no other key); on a path with two spike events, one routing decision and one
  agent action the lengths are 2 and 1 and the counts are 2, 1 and 1. The views are
  functions of the path alone: they take no service and so read no store.
\<close>

theorem derived_views:
  "GetSpikeEvents p = filter (\<lambda>n. Type n = ''spike_event'') (Nodes p)
   \<and> GetDecisions p = filter (\<lambda>n. Type n = ''routing_decision'') (Nodes p)
   \<and> CountByType p t =
       (if t \<in> Type ` set (Nodes p)
        then Some (int (length (filter (\<lambda>n. Type n = t) (Nodes p)))) else None)
   \<and> (mset (map Type (Nodes p)) =
         {#''spike_event'', ''spike_event'', ''routing_decision'', ''agent_action''#}
       \<longrightarrow> length (GetSpikeEvents p) = 2 \<and> length (GetDecisions p) = 1
         \<and> CountByType p = [''spike_event'' \<mapsto> 2, ''routing_decision'' \<mapsto> 1,
                             ''agent_action'' \<mapsto> 1])"
proof -
  have s: "GetSpikeEvents p = filter (\<lambda>n. Type n = ''spike_event'') (Nodes p)"
    by (simp add: GetSpikeEvents_def fold_append_filter)
  have d: "GetDecisions p = filter (\<lambda>n. Type n = ''routing_decision'') (Nodes p)"
    by (simp add: GetDecisions_def fold_append_filter)
  have c: "CountByType p t =
       (if t \<in> Type ` set (Nodes p)
        then Some (int (length (filter (\<lambda>n. Type n = t) (Nodes p)))) else None)" for t
    by (simp add: CountByType_fold fold_count)
  have ex: "length (GetSpikeEvents p) = 2 \<and> length (GetDecisions p) = 1
         \<and> CountByType p = [''spike_event'' \<mapsto> 2, ''routing_decision'' \<mapsto> 1,
                             ''agent_action'' \<mapsto> 1]"
    if m: "mset (map Type (Nodes p)) =
         {#''spike_event'', ''spike_event'', ''routing_decision'', ''agent_action''#}"
  proof -
    have l: "length (filter (\<lambda>n. Type n = u) (Nodes p)) =
        count {#''spike_event'', ''spike_event'', ''routing_decision'', ''agent_action''#} u" for u
      by (simp only: length_filter_Type m)
    have i: "u \<in> Type ` set (Nodes p) \<longleftrightarrow>
        u \<in># {#''spike_event'', ''spike_event'', ''routing_decision'', ''agent_action''#}" for u
      by (simp only: Type_image_mset m)
    have "CountByType p u = [''spike_event'' \<mapsto> 2, ''routing_decision'' \<mapsto> 1,
                             ''agent_action'' \<mapsto> 1] u" for u
      unfolding c[of u] i l by simp
    then have "CountByType p = [''spike_event'' \<mapsto> 2, ''routing_decision'' \<mapsto> 1,
                             ''agent_action'' \<mapsto> 1]" by (rule ext)
    moreover have "length (GetSpikeEvents p) = 2" unfolding s l by simp
    moreover have "length (GetDecisions p) = 1" unfolding d l by simp
    ultimately show ?thesis by blast
  qed
  show ?thesis using s d c ex by blast
qed

text \<open>C8 on a path of four nodes.\<close>

theorem derived_views_witness:
  "mset (map Type (Nodes four_node_path)) =
         {#''spike_event'', ''spike_event'', ''routing_decision'', ''agent_action''#}
   \<and> length (GetSpikeEvents four_node_path) = 2 \<and> length (GetDecisions four_node_path) = 1
   \<and> CountByType four_node_path = [''spike_event'' \<mapsto> 2, ''routing_decision'' \<mapsto> 1,
                             ''agent_action'' \<mapsto> 1]
   \<and> GetSpikeEvents four_node_path =
       [rec_node ''s1'' ''spike_event'' 0 4, rec_node ''s2'' ''spike_event'' 0 4]"
proof -
  have h: "mset (map Type (Nodes four_node_path)) =
         {#''spike_event'', ''spike_event'', ''routing_decision'', ''agent_action''#}"
    by (simp add: four_node_path_def rec_node_def)
  have g: "filter (\<lambda>n. Type n = ''spike_event'') (Nodes four_node_path) =
       [rec_node ''s1'' ''spike_event'' 0 4, rec_node ''s2'' ''spike_event'' 0 4]"
    by (simp add: four_node_path_def rec_node_def)
  note t = derived_views[of four_node_path "''spike_event''"]
  from t have s: "GetSpikeEvents four_node_path =
      filter (\<lambda>n. Type n = ''spike_event'') (Nodes four_node_path)" by blast
  from t h have "length (GetSpikeEvents four_node_path) = 2 \<and> length (GetDecisions four_node_path) = 1
   \<and> CountByType four_node_path = [''spike_event'' \<mapsto> 2, ''routing_decision'' \<mapsto> 1,
                             ''agent_action'' \<mapsto> 1]" by blast
  then show ?thesis using h g s by simp
qed

subsection \<open>C9: the service is left unchanged\<close>

text \<open>
  Claim C9: each of \<^verbatim>\<open>TraceCausality\<close>, \<^verbatim>\<open>GetAgentDecisionPath\<close>,
  \<^verbatim>\<open>FindEmergentPatterns\<close>, \<^verbatim>\<open>QueryByPatternHash\<close> and \<^verbatim>\<open>QueryByInferenceID\<close>
  leaves the service, and with it the client of the entity store, as it was before the
  call.
\<close>

theorem service_unchanged:
  "snd (TraceCausality s now outputID maxDepth) = s
   \<and> snd (GetAgentDecisionPath s agentID actionID) = s
   \<and> snd (FindEmergentPatterns s startTime endTime minOccurrences) = s
   \<and> snd (QueryByPatternHash s patternHash limit) = s
   \<and> snd (QueryByInferenceID s now inferenceID) = s"
  by (simp add: TraceCausality_def GetAgentDecisionPath_def FindEmergentPatterns_def
        FindEmergentPatterns_body_def QueryByPatternHash_def QueryByPatternHash_body_def
        QueryByInferenceID_def buildInferencePath_def)

text \<open>C9 at the store of spike events.\<close>

theorem service_unchanged_witness:
  "snd (TraceCausality spike_store (\<lambda>_. 0) ''out'' 7) = spike_store
   \<and> snd (GetAgentDecisionPath spike_store ''agent'' ''a1'') = spike_store
   \<and> snd (FindEmergentPatterns spike_store 0 100 5) = spike_store
   \<and> snd (QueryByPatternHash spike_store ''B'' 10) = spike_store
   \<and> snd (QueryByInferenceID spike_store (\<lambda>_. 0) ''inf'') = spike_store"
  using service_unchanged[of spike_store "\<lambda>_. 0" "''out''" 7 "''agent''" "''a1''" 0 100 5 "''B''" 10
      "''inf''"]
  by blast

subsection \<open>C10: the agent decision path\<close>

text \<open>
  Claim C10: \<^verbatim>\<open>GetAgentDecisionPath\<close> returns the \<^verbatim>\<open>nil\<close> error and a path that
  carries the given agent and action ids, four lists that are empty and not \<^verbatim>\<open>nil\<close>,
  and total depth 0. It reads nothing from the store: the result is the same for every
  service.
\<close>

theorem GetAgentDecisionPath_empty:
  "GetAgentDecisionPath s agentID actionID =
     ((\<lparr>AgentID = agentID, ActionID = actionID, SpikeEvents = Some [], Decisions = Some [],
        Workflows = Some [], Outputs = Some [], TotalDepth = 0\<rparr>, None), s)
   \<and> fst (GetAgentDecisionPath s agentID actionID) = fst (GetAgentDecisionPath s' agentID actionID)"
  by (simp add: GetAgentDecisionPath_def)

text \<open>C10 at the store of spike events.\<close>

theorem GetAgentDecisionPath_empty_witness:
  "GetAgentDecisionPath spike_store ''agent'' ''a1'' =
     ((\<lparr>AgentID = ''agent'', ActionID = ''a1'', SpikeEvents = Some [], Decisions = Some [],
        Workflows = Some [], Outputs = Some [], TotalDepth = 0\<rparr>, None), spike_store)"
  using GetAgentDecisionPath_empty[of spike_store "''agent''" "''a1''" spike_store] by blast

end
